theory Spec2Isabelle
  imports Main "HOL-Library.Word" "HOL-Library.Sublist" "HOL-Library.Multiset"
begin

section \<open>Strings of the source language\<close>

text \<open>
  A string of the source is a sequence of 16-bit code units.  Iterating a string with
  \<^verbatim>\<open>for (const char of s)\<close> yields its code points: a high surrogate directly followed
  by a low surrogate is one element (a string of two units), every other unit is an
  element of its own.  \<^verbatim>\<open>s.length\<close>, \<^verbatim>\<open>s[j]\<close> and \<^verbatim>\<open>s.substring\<close> count code units.
\<close>

type_synonym jsstring = "16 word list"

definition is_high_surrogate :: "16 word \<Rightarrow> bool" where
  "is_high_surrogate u = (0xD800 \<le> u \<and> u \<le> 0xDBFF)"

definition is_low_surrogate :: "16 word \<Rightarrow> bool" where
  "is_low_surrogate u = (0xDC00 \<le> u \<and> u \<le> 0xDFFF)"

fun code_points :: "jsstring \<Rightarrow> jsstring list" where
  "code_points [] = []"
| "code_points [u] = [[u]]"
| "code_points (u # v # rest) =
     (if is_high_surrogate u \<and> is_low_surrogate v then [u, v] # code_points rest
      else [u] # code_points (v # rest))"

text \<open>\<^verbatim>\<open>s.substring(a, b)\<close>: both arguments are clamped to \<open>[0, s.length]\<close> and
  swapped when the first exceeds the second.\<close>

definition substring :: "jsstring \<Rightarrow> int \<Rightarrow> int \<Rightarrow> jsstring" where
  "substring s a b =
     (let n = int (length s);
          a' = min (max a 0) n;
          b' = min (max b 0) n;
          lo = min a' b';
          hi = max a' b'
      in take (nat (hi - lo)) (drop (nat lo) s))"

section \<open>Trie nodes on a heap\<close>

text \<open>
  The nodes are objects that refer to each other (children, fail), so they live in a
  store: a list of nodes, an address is an index.  \<^verbatim>\<open>new TrieNode()\<close> appends a node.
  The filter's root is the first node allocated.  A \<^verbatim>\<open>Map\<close> keeps its keys in insertion
  order and \<^verbatim>\<open>forEach\<close> visits them in that order: an association list, extended at its end.
  The fields \<^verbatim>\<open>end\<close> and \<^verbatim>\<open>length\<close> are \<open>end_flag\<close> and \<open>length_field\<close> here.
\<close>

type_synonym addr = nat

record TrieNode =
  children :: "(jsstring \<times> addr) list"
  fail :: "addr option"
  end_flag :: bool
  length_field :: nat

type_synonym heap = "TrieNode list"

definition new_TrieNode :: TrieNode where
  "new_TrieNode = \<lparr>children = [], fail = None, end_flag = False, length_field = 0\<rparr>"

abbreviation (input) root :: addr where
  "root \<equiv> 0"

definition new_filter :: heap where
  "new_filter = [new_TrieNode]"

subsection \<open>addWord\<close>

fun addWord_loop :: "heap \<Rightarrow> addr \<Rightarrow> jsstring list \<Rightarrow> heap \<times> addr" where
  "addWord_loop h node [] = (h, node)"
| "addWord_loop h node (c # cs) =
     (case map_of (children (h ! node)) c of
        Some nxt \<Rightarrow> addWord_loop h nxt cs
      | None \<Rightarrow>
          addWord_loop
            ((h[node := (h ! node)\<lparr>children := children (h ! node) @ [(c, length h)]\<rparr>])
               @ [new_TrieNode])
            (length h) cs)"

definition addWord :: "heap \<Rightarrow> jsstring \<Rightarrow> heap" where
  "addWord h word =
     (case addWord_loop h root (code_points word) of
        (h', node) \<Rightarrow>
          h'[node := (h' ! node)\<lparr>end_flag := True, length_field := length word\<rparr>])"

subsection \<open>buildFailPointers\<close>

text \<open>The loops that follow fail pointers end only on a well-formed trie; they are
  partial functions, \<open>None\<close> is a run that never returns.\<close>

partial_function (option) find_fail :: "heap \<Rightarrow> addr option \<Rightarrow> jsstring \<Rightarrow> addr option option" where
  "find_fail h f c =
     (case f of
        None \<Rightarrow> Some None
      | Some a \<Rightarrow>
          if map_of (children (h ! a)) c = None then find_fail h (fail (h ! a)) c
          else Some (Some a))"

fun visit_children ::
  "heap \<Rightarrow> addr \<Rightarrow> (jsstring \<times> addr) list \<Rightarrow> addr list \<Rightarrow> (heap \<times> addr list) option" where
  "visit_children h current [] queue = Some (h, queue)"
| "visit_children h current ((c, childNode) # rest) queue =
     (if current = root
      then visit_children (h[childNode := (h ! childNode)\<lparr>fail := Some root\<rparr>])
             current rest (queue @ [childNode])
      else
        (case find_fail h (fail (h ! current)) c of
           None \<Rightarrow> None
         | Some f \<Rightarrow>
             visit_children
               (h[childNode := (h ! childNode)
                    \<lparr>fail := (case f of None \<Rightarrow> Some root
                                     | Some a \<Rightarrow> map_of (children (h ! a)) c)\<rparr>])
               current rest (queue @ [childNode])))"

partial_function (option) bfs :: "heap \<Rightarrow> addr list \<Rightarrow> heap option" where
  "bfs h queue =
     (case queue of
        [] \<Rightarrow> Some h
      | current # rest \<Rightarrow>
          (case visit_children h current (children (h ! current)) rest of
             None \<Rightarrow> None
           | Some (h', queue') \<Rightarrow> bfs h' queue'))"

declare find_fail.simps [code]
declare bfs.simps [code]

definition buildFailPointers :: "heap \<Rightarrow> heap option" where
  "buildFailPointers h = bfs (h[root := (h ! root)\<lparr>fail := None\<rparr>]) [root]"

definition insertWords :: "jsstring list \<Rightarrow> heap" where
  "insertWords D = foldl addWord new_filter D"

text \<open>\<^verbatim>\<open>loadSensitiveWords\<close> without its file reading: the words handed to
  \<^verbatim>\<open>addWord\<close>, in order, then the failure links.\<close>

definition loadSensitiveWords :: "jsstring list \<Rightarrow> heap option" where
  "loadSensitiveWords D = buildFailPointers (insertWords D)"

section \<open>The exact scanner\<close>

text \<open>Reading a property of \<^verbatim>\<open>null\<close> throws a \<^verbatim>\<open>TypeError\<close>; nothing else in the
  scanners throws.  The field \<^verbatim>\<open>end\<close> of a match is \<open>end_pos\<close> here.\<close>

datatype error = TypeError

record match =
  word :: jsstring
  start :: int
  end_pos :: int

partial_function (option) fall_back :: "heap \<Rightarrow> addr option \<Rightarrow> jsstring \<Rightarrow> (error + addr) option" where
  "fall_back h node c =
     (case node of
        None \<Rightarrow> Some (Inl TypeError)
      | Some n \<Rightarrow>
          if n \<noteq> root \<and> map_of (children (h ! n)) c = None then fall_back h (fail (h ! n)) c
          else Some (Inr n))"

partial_function (option) collect ::
  "heap \<Rightarrow> jsstring \<Rightarrow> int \<Rightarrow> addr option \<Rightarrow> match list \<Rightarrow> (error + match list) option" where
  "collect h text currentIndex tempNode foundWords =
     (case tempNode of
        None \<Rightarrow> Some (Inl TypeError)
      | Some t \<Rightarrow>
          if t \<noteq> root then
            collect h text currentIndex (fail (h ! t))
              (if end_flag (h ! t)
               then foundWords @
                      [\<lparr>word = substring text (currentIndex - int (length_field (h ! t)) + 1)
                                 (currentIndex + 1),
                        start = currentIndex - int (length_field (h ! t)) + 1,
                        end_pos = currentIndex\<rparr>]
               else foundWords)
          else Some (Inr foundWords))"

declare fall_back.simps [code]
declare collect.simps [code]

fun scan_loop ::
  "heap \<Rightarrow> jsstring \<Rightarrow> jsstring list \<Rightarrow> addr \<Rightarrow> int \<Rightarrow> match list \<Rightarrow> (error + match list) option" where
  "scan_loop h text [] node currentIndex foundWords = Some (Inr foundWords)"
| "scan_loop h text (c # cs) node currentIndex foundWords =
     (case fall_back h (Some node) c of
        None \<Rightarrow> None
      | Some (Inl e) \<Rightarrow> Some (Inl e)
      | Some (Inr n) \<Rightarrow>
          (let node' = (case map_of (children (h ! n)) c of Some m \<Rightarrow> m | None \<Rightarrow> root)
           in case collect h text currentIndex (Some node') foundWords of
                None \<Rightarrow> None
              | Some (Inl e) \<Rightarrow> Some (Inl e)
              | Some (Inr foundWords') \<Rightarrow> scan_loop h text cs node' (currentIndex + 1) foundWords'))"

definition findSensitiveWords :: "heap \<Rightarrow> jsstring \<Rightarrow> (error + match list) option" where
  "findSensitiveWords h text = scan_loop h text (code_points text) root 0 []"

section \<open>The fuzzy scanner\<close>

text \<open>The fuzzy scanner indexes the text by code unit (\<^verbatim>\<open>text[j]\<close>, \<^verbatim>\<open>text.length\<close>) and
  never reads a fail pointer.  \<open>maxSkip\<close> is an integer of any sign.  The inner loop
  returns \<open>Some potentialEnd\<close> when it leaves through the \<^verbatim>\<open>break\<close> after a match and
  \<open>None\<close> otherwise; \<^verbatim>\<open>potentialEnd\<close> has just been assigned \<open>j\<close> where it is read.
  \<^verbatim>\<open>matchStart\<close> is the \<open>i\<close> of the outer loop.\<close>

definition mark_region :: "nat list \<Rightarrow> nat \<Rightarrow> nat \<Rightarrow> nat list" where
  "mark_region activeRegions matchStart potentialEnd =
     fold (\<lambda>k a. a[k := 1]) [matchStart..<Suc potentialEnd] activeRegions"

function fuzzy_inner ::
  "heap \<Rightarrow> jsstring \<Rightarrow> int \<Rightarrow> addr \<Rightarrow> nat \<Rightarrow> int \<Rightarrow> nat \<Rightarrow> nat option" where
  "fuzzy_inner h text maxSkip currentNode potentialEnd skipped j =
     (if j < length text then
        (case map_of (children (h ! currentNode)) [text ! j] of
           Some nxt \<Rightarrow>
             if end_flag (h ! nxt) then Some j
             else fuzzy_inner h text maxSkip nxt j 0 (j + 1)
         | None \<Rightarrow>
             if currentNode \<noteq> root \<and> skipped < maxSkip
             then fuzzy_inner h text maxSkip currentNode potentialEnd (skipped + 1) (j + 1)
             else None)
      else None)"
  by pat_completeness auto
termination
  by (relation "measure (\<lambda>(h, text, maxSkip, currentNode, potentialEnd, skipped, j). length text - j)")
     auto

function fuzzy_outer ::
  "heap \<Rightarrow> jsstring \<Rightarrow> int \<Rightarrow> nat \<Rightarrow> nat list \<Rightarrow> match list \<Rightarrow> match list" where
  "fuzzy_outer h text maxSkip i activeRegions foundWords =
     (if i < length text then
        if activeRegions ! i = 1 then fuzzy_outer h text maxSkip (i + 1) activeRegions foundWords
        else
          (case fuzzy_inner h text maxSkip root i 0 i of
             Some potentialEnd \<Rightarrow>
               fuzzy_outer h text maxSkip (i + 1)
                 (mark_region activeRegions i potentialEnd)
                 (foundWords @
                    [\<lparr>word = substring text (int i) (int potentialEnd + 1),
                      start = int i, end_pos = int potentialEnd\<rparr>])
           | None \<Rightarrow> fuzzy_outer h text maxSkip (i + 1) activeRegions foundWords)
      else foundWords)"
  by pat_completeness auto
termination
  by (relation "measure (\<lambda>(h, text, maxSkip, i, activeRegions, foundWords). length text - i)")
     auto

definition findSensitiveWordsFuzzy :: "heap \<Rightarrow> jsstring \<Rightarrow> int \<Rightarrow> match list" where
  "findSensitiveWordsFuzzy h text maxSkip =
     fuzzy_outer h text maxSkip 0 (replicate (length text) 0) []"

section \<open>Specification-level definitions\<close>

text \<open>The inner loop of the fuzzy scanner once more, recording in \<open>trail\<close> the positions
  \<open>j\<close> at which the branch \<^verbatim>\<open>currentNode.children.has(char)\<close> was taken: the characters
  consumed by a trie transition.  Every other position the loop passes is a skipped one.
  Lemma \<open>fuzzy_inner_trail_fst\<close> shows that it returns what \<open>fuzzy_inner\<close> returns.\<close>

function fuzzy_inner_trail ::
  "heap \<Rightarrow> jsstring \<Rightarrow> int \<Rightarrow> addr \<Rightarrow> nat \<Rightarrow> int \<Rightarrow> nat \<Rightarrow> nat list \<Rightarrow> (nat \<times> nat list) option" where
  "fuzzy_inner_trail h text maxSkip currentNode potentialEnd skipped j trail =
     (if j < length text then
        (case map_of (children (h ! currentNode)) [text ! j] of
           Some nxt \<Rightarrow>
             if end_flag (h ! nxt) then Some (j, trail @ [j])
             else fuzzy_inner_trail h text maxSkip nxt j 0 (j + 1) (trail @ [j])
         | None \<Rightarrow>
             if currentNode \<noteq> root \<and> skipped < maxSkip
             then fuzzy_inner_trail h text maxSkip currentNode potentialEnd (skipped + 1) (j + 1) trail
             else None)
      else None)"
  by pat_completeness auto
termination
  by (relation "measure (\<lambda>(h, text, maxSkip, currentNode, potentialEnd, skipped, j, trail). length text - j)")
     auto

fun gaps_within :: "int \<Rightarrow> nat list \<Rightarrow> bool" where
  "gaps_within k (p # q # ps) = (p < q \<and> int (q - p - 1) \<le> k \<and> gaps_within k (q # ps))"
| "gaps_within k ps = True"

definition spans_separate :: "match list \<Rightarrow> bool" where
  "spans_separate ms \<longleftrightarrow>
     sorted_wrt (\<lambda>a b. end_pos a < start b) ms \<and> (\<forall>m\<in>set ms. start m \<le> end_pos m)"

definition covered :: "nat list \<Rightarrow> nat \<Rightarrow> match \<Rightarrow> bool" where
  "covered act i m \<longleftrightarrow>
     start m < int i \<and>
     (\<forall>p. start m \<le> int p \<and> int p \<le> end_pos m \<longrightarrow> p < length act \<and> act ! p = 1)"

text \<open>\<open>walk h n cs\<close> follows the keys \<open>cs\<close> from node \<open>n\<close> along the children maps; the
  depth of a node is the length of the key sequence that leads to it from the root.
  The invariants below label every address with that key sequence.\<close>

fun walk :: "heap \<Rightarrow> addr \<Rightarrow> jsstring list \<Rightarrow> addr option" where
  "walk h n [] = Some n"
| "walk h n (c # cs) =
     (case map_of (children (h ! n)) c of None \<Rightarrow> None | Some m \<Rightarrow> walk h m cs)"

definition trie_inv :: "heap \<Rightarrow> (addr \<Rightarrow> jsstring list) \<Rightarrow> bool" where
  "trie_inv h lab \<longleftrightarrow>
     h \<noteq> [] \<and> lab 0 = [] \<and>
     (\<forall>n<length h. distinct (map fst (children (h ! n)))) \<and>
     (\<forall>n<length h. \<forall>(c, m)\<in>set (children (h ! n)).
        n < m \<and> m < length h \<and> c \<noteq> [] \<and> lab m = lab n @ [c]) \<and>
     (\<forall>m<length h. m \<noteq> 0 \<longrightarrow> (\<exists>n<length h. \<exists>c. (c, m) \<in> set (children (h ! n)))) \<and>
     inj_on lab {..<length h}"

definition lens_ok :: "heap \<Rightarrow> (addr \<Rightarrow> jsstring list) \<Rightarrow> bool" where
  "lens_ok h lab \<longleftrightarrow>
     (\<forall>n<length h. end_flag (h ! n) \<longrightarrow> length_field (h ! n) = length (concat (lab n)))"

definition words_ok :: "heap \<Rightarrow> (addr \<Rightarrow> jsstring list) \<Rightarrow> jsstring set \<Rightarrow> bool" where
  "words_ok h lab S \<longleftrightarrow>
     (\<forall>n<length h. end_flag (h ! n) \<longrightarrow> (\<exists>w\<in>S. lab n = code_points w)) \<and>
     (\<forall>w\<in>S. \<exists>n<length h. lab n = code_points w \<and> end_flag (h ! n))"

definition unbuilt :: "heap \<Rightarrow> bool" where
  "unbuilt h \<longleftrightarrow> (\<forall>n<length h. fail (h ! n) = None)"

definition grows :: "heap \<Rightarrow> (addr \<Rightarrow> jsstring list) \<Rightarrow> heap \<Rightarrow> (addr \<Rightarrow> jsstring list) \<Rightarrow> bool" where
  "grows h lab h' lab' \<longleftrightarrow>
     length h \<le> length h' \<and>
     (\<forall>n<length h. lab' n = lab n \<and> fail (h' ! n) = fail (h ! n) \<and>
        end_flag (h' ! n) = end_flag (h ! n) \<and> length_field (h' ! n) = length_field (h ! n)) \<and>
     (\<forall>n. length h \<le> n \<and> n < length h' \<longrightarrow> fail (h' ! n) = None \<and> \<not> end_flag (h' ! n))"

definition good :: "heap \<Rightarrow> (addr \<Rightarrow> jsstring list) \<Rightarrow> addr \<Rightarrow> bool" where
  "good h lab n \<longleftrightarrow>
     n = 0 \<or>
     (\<exists>m<length h. fail (h ! n) = Some m \<and> strict_suffix (lab m) (lab n) \<and>
        (\<forall>k<length h. strict_suffix (lab k) (lab n) \<longrightarrow> suffix (lab k) (lab m)))"

definition same_shape :: "heap \<Rightarrow> heap \<Rightarrow> bool" where
  "same_shape h h' \<longleftrightarrow>
     length h' = length h \<and>
     (\<forall>n. children (h' ! n) = children (h ! n) \<and> end_flag (h' ! n) = end_flag (h ! n) \<and>
          length_field (h' ! n) = length_field (h ! n))"

definition bfs_inv :: "heap \<Rightarrow> (addr \<Rightarrow> jsstring list) \<Rightarrow> addr list \<Rightarrow> bool" where
  "bfs_inv h lab q \<longleftrightarrow>
     trie_inv h lab \<and> fail (h ! 0) = None \<and>
     (\<forall>a\<in>set q. a < length h \<and> good h lab a) \<and>
     sorted_wrt (\<lambda>a b. length (lab a) \<le> length (lab b)) q \<and>
     (\<forall>a\<in>set q. \<forall>b\<in>set q. length (lab b) \<le> length (lab a) + 1) \<and>
     (\<forall>n<length h. good h lab n \<or> (\<exists>a\<in>set q. strict_prefix (lab a) (lab n)))"

definition visit_inv ::
  "heap \<Rightarrow> (addr \<Rightarrow> jsstring list) \<Rightarrow> addr \<Rightarrow> (jsstring \<times> addr) list \<Rightarrow> addr list \<Rightarrow> bool" where
  "visit_inv h lab cur kids q \<longleftrightarrow>
     trie_inv h lab \<and> fail (h ! 0) = None \<and> cur < length h \<and> good h lab cur \<and>
     set kids \<subseteq> set (children (h ! cur)) \<and>
     (\<forall>n<length h. length (lab n) \<le> length (lab cur) \<longrightarrow> good h lab n) \<and>
     (\<forall>a\<in>set q. a < length h \<and> good h lab a \<and> length (lab cur) \<le> length (lab a) \<and>
                 length (lab a) \<le> length (lab cur) + 1) \<and>
     sorted_wrt (\<lambda>a b. length (lab a) \<le> length (lab b)) q \<and>
     (\<forall>n<length h. good h lab n \<or> (\<exists>a\<in>set q. strict_prefix (lab a) (lab n)) \<or>
                   (\<exists>(c, m)\<in>set kids. prefix (lab m) (lab n)))"

definition fail_result ::
  "heap \<Rightarrow> (addr \<Rightarrow> jsstring list) \<Rightarrow> addr \<Rightarrow> jsstring \<Rightarrow> addr option \<Rightarrow> bool" where
  "fail_result h lab a c r \<longleftrightarrow>
     (case r of
        None \<Rightarrow> (\<forall>k<length h. suffix (lab k) (lab a) \<longrightarrow> map_of (children (h ! k)) c = None)
      | Some b \<Rightarrow>
          b < length h \<and> suffix (lab b) (lab a) \<and> map_of (children (h ! b)) c \<noteq> None \<and>
          (\<forall>k<length h. suffix (lab k) (lab a) \<and> map_of (children (h ! k)) c \<noteq> None \<longrightarrow>
                suffix (lab k) (lab b)))"

definition built :: "heap \<Rightarrow> (addr \<Rightarrow> jsstring list) \<Rightarrow> bool" where
  "built h lab \<longleftrightarrow>
     trie_inv h lab \<and> lens_ok h lab \<and> fail (h ! 0) = None \<and> (\<forall>n<length h. good h lab n)"

text \<open>The order on matches that the exact scanner's result respects, the relation of a
  match's fields to each other, and the state of the exact scanner: after the code points
  \<open>P\<close> the current node is the one with the longest key sequence that is a suffix of
  \<open>P\<close>; \<open>hit h T k idx\<close> is the match pushed for the terminal node \<open>k\<close> at index
  \<open>idx\<close>.\<close>

definition match_before :: "match \<Rightarrow> match \<Rightarrow> bool" where
  "match_before a b \<longleftrightarrow>
     end_pos a < end_pos b \<or> (end_pos a = end_pos b \<and> start a < start b)"

definition match_wf :: "jsstring \<Rightarrow> match \<Rightarrow> bool" where
  "match_wf T m \<longleftrightarrow>
     word m = substring T (start m) (end_pos m + 1) \<and> start m \<le> end_pos m + 1"

definition longest_in :: "heap \<Rightarrow> (addr \<Rightarrow> jsstring list) \<Rightarrow> addr \<Rightarrow> jsstring list \<Rightarrow> bool" where
  "longest_in h lab n P \<longleftrightarrow>
     n < length h \<and> suffix (lab n) P \<and> (\<forall>k<length h. suffix (lab k) P \<longrightarrow> suffix (lab k) (lab n))"

definition fall_back_post ::
  "heap \<Rightarrow> (addr \<Rightarrow> jsstring list) \<Rightarrow> addr \<Rightarrow> jsstring \<Rightarrow> addr \<Rightarrow> bool" where
  "fall_back_post h lab n c n' \<longleftrightarrow>
     n' < length h \<and> suffix (lab n') (lab n) \<and>
     (map_of (children (h ! n')) c = None \<longrightarrow> n' = 0) \<and>
     (\<forall>k<length h. suffix (lab k) (lab n) \<and> map_of (children (h ! k)) c \<noteq> None \<longrightarrow>
           suffix (lab k) (lab n'))"

definition hit :: "heap \<Rightarrow> jsstring \<Rightarrow> addr \<Rightarrow> int \<Rightarrow> match" where
  "hit h T k idx =
     \<lparr>word = substring T (idx - int (length_field (h ! k)) + 1) (idx + 1),
      start = idx - int (length_field (h ! k)) + 1, end_pos = idx\<rparr>"

definition terminal_at :: "heap \<Rightarrow> (addr \<Rightarrow> jsstring list) \<Rightarrow> jsstring list \<Rightarrow> addr \<Rightarrow> bool" where
  "terminal_at h lab P k \<longleftrightarrow> k < length h \<and> k \<noteq> 0 \<and> end_flag (h ! k) \<and> suffix (lab k) P"

definition collect_post ::
  "heap \<Rightarrow> (addr \<Rightarrow> jsstring list) \<Rightarrow> jsstring \<Rightarrow> int \<Rightarrow> addr \<Rightarrow> match list \<Rightarrow> match list \<Rightarrow> bool" where
  "collect_post h lab T idx t found found' \<longleftrightarrow>
     sorted_wrt match_before found' \<and> (\<forall>m\<in>set found'. match_wf T m \<and> end_pos m \<le> idx) \<and>
     set found' = set found \<union> {hit h T k idx |k. terminal_at h lab (lab t) k}"

definition scan_post ::
  "heap \<Rightarrow> (addr \<Rightarrow> jsstring list) \<Rightarrow> jsstring \<Rightarrow> jsstring list \<Rightarrow> jsstring list \<Rightarrow>
   match list \<Rightarrow> match list \<Rightarrow> bool" where
  "scan_post h lab T P cs found found' \<longleftrightarrow>
     sorted_wrt match_before found' \<and> (\<forall>m\<in>set found'. match_wf T m) \<and>
     set found' = set found \<union>
       {hit h T k (int e) |k e. length P \<le> e \<and> e < length P + length cs \<and>
          terminal_at h lab (take (Suc e) (P @ cs)) k}"

text \<open>A string in which no high surrogate is directly followed by a low surrogate: each
  of its code points is one code unit.\<close>

fun no_surrogate_pair :: "jsstring \<Rightarrow> bool" where
  "no_surrogate_pair (u # v # rest) =
     (\<not> (is_high_surrogate u \<and> is_low_surrogate v) \<and> no_surrogate_pair (v # rest))"
| "no_surrogate_pair s = True"

declare fuzzy_inner.simps [simp del]
declare fuzzy_outer.simps [simp del]
declare fuzzy_inner_trail.simps [simp del]

section \<open>The fuzzy scanner: loop invariants\<close>

lemma fuzzy_inner_trail_fst:
  "fuzzy_inner h T maxSkip currentNode potentialEnd skipped j =
   map_option fst (fuzzy_inner_trail h T maxSkip currentNode potentialEnd skipped j trail)"
proof (induction h T maxSkip currentNode potentialEnd skipped j trail
       rule: fuzzy_inner_trail.induct)
  case (1 h T maxSkip currentNode potentialEnd skipped j trail)
  show ?case
    apply (subst fuzzy_inner.simps)
    apply (subst fuzzy_inner_trail.simps)
    using 1 by (auto split: option.splits)
qed

lemma fuzzy_inner_bounds:
  "fuzzy_inner h T maxSkip currentNode potentialEnd skipped j = Some e \<Longrightarrow>
   j \<le> e \<and> e < length T"
proof (induction h T maxSkip currentNode potentialEnd skipped j rule: fuzzy_inner.induct)
  case (1 h T maxSkip currentNode potentialEnd skipped j)
  from "1.prems" show ?case
    apply (subst (asm) fuzzy_inner.simps)
    using "1.IH" by (fastforce split: if_splits option.splits)
qed

lemma gaps_within_snoc:
  "gaps_within k (tr @ [j]) \<longleftrightarrow>
   gaps_within k tr \<and> (tr \<noteq> [] \<longrightarrow> last tr < j \<and> int (j - last tr - 1) \<le> k)"
  by (induction k tr rule: gaps_within.induct) auto

lemma fuzzy_inner_trail_ends:
  "fuzzy_inner_trail h T maxSkip currentNode potentialEnd skipped j trail = Some (e, tr) \<Longrightarrow>
   tr \<noteq> [] \<and> last tr = e \<and> (trail \<noteq> [] \<longrightarrow> hd tr = hd trail)"
proof (induction h T maxSkip currentNode potentialEnd skipped j trail
       rule: fuzzy_inner_trail.induct)
  case (1 h T maxSkip currentNode potentialEnd skipped j trail)
  from "1.prems" show ?case
    apply (subst (asm) fuzzy_inner_trail.simps)
    using "1.IH" by (auto split: if_splits option.splits)
qed

lemma fuzzy_inner_trail_first:
  assumes "fuzzy_inner_trail h T maxSkip root potentialEnd skipped j [] = Some (e, tr)"
  shows "hd tr = j"
  using assms
  apply (subst (asm) fuzzy_inner_trail.simps)
  by (auto split: if_splits option.splits dest: fuzzy_inner_trail_ends)

lemma fuzzy_inner_trail_gaps:
  "fuzzy_inner_trail h T maxSkip currentNode potentialEnd skipped j trail = Some (e, tr) \<Longrightarrow>
   gaps_within maxSkip trail \<Longrightarrow> 0 \<le> maxSkip \<Longrightarrow>
   (trail = [] \<longrightarrow> currentNode = root) \<Longrightarrow>
   (trail \<noteq> [] \<longrightarrow> last trail < j \<and> int (j - last trail - 1) = skipped) \<Longrightarrow>
   skipped \<le> maxSkip \<Longrightarrow>
   gaps_within maxSkip tr"
proof (induction h T maxSkip currentNode potentialEnd skipped j trail
       rule: fuzzy_inner_trail.induct)
  case (1 h T maxSkip currentNode potentialEnd skipped j trail)
  from "1.prems"(1) have lt: "j < length T"
    by (subst (asm) fuzzy_inner_trail.simps) (auto split: if_splits)
  show ?case
  proof (cases "map_of (children (h ! currentNode)) [T ! j]")
    case None
    with "1.prems"(1) lt have c: "currentNode \<noteq> root" "skipped < maxSkip"
      and r: "fuzzy_inner_trail h T maxSkip currentNode potentialEnd (skipped + 1) (j + 1) trail = Some (e, tr)"
      by (subst (asm) fuzzy_inner_trail.simps, auto split: if_splits)+
    from c "1.prems" have ne: "trail \<noteq> []" by auto
    show ?thesis
      using "1.IH"(1)[OF lt None _ r] c "1.prems" ne by auto
  next
    case (Some nxt)
    have g: "gaps_within maxSkip (trail @ [j])"
      using "1.prems" by (auto simp: gaps_within_snoc)
    show ?thesis
    proof (cases "end_flag (h ! nxt)")
      case True
      with "1.prems"(1) lt Some have "tr = trail @ [j]"
        by (subst (asm) fuzzy_inner_trail.simps) auto
      with g show ?thesis by simp
    next
      case False
      with "1.prems"(1) lt Some
      have r: "fuzzy_inner_trail h T maxSkip nxt j 0 (j + 1) (trail @ [j]) = Some (e, tr)"
        by (subst (asm) fuzzy_inner_trail.simps) auto
      show ?thesis
        using "1.IH"(2)[OF lt Some False r g] "1.prems" by auto
    qed
  qed
qed

lemma fold_update_length: "length (fold (\<lambda>k a. a[k := v]) ks act) = length act"
  by (induction ks arbitrary: act) auto

lemma mark_region_length: "length (mark_region act a b) = length act"
  unfolding mark_region_def by (rule fold_update_length)

lemma mark_region_nth:
  assumes "p < length act"
  shows "mark_region act a b ! p = (if a \<le> p \<and> p \<le> b then 1 else act ! p)"
proof -
  have "\<And>act. p < length act \<Longrightarrow>
          fold (\<lambda>k a. a[k := 1]) ks act ! p = (if p \<in> set ks then 1 else act ! p)"
    for ks :: "nat list"
    by (induction ks) (auto simp: nth_list_update)
  from this[OF assms, of "[a..<Suc b]"] show ?thesis
    by (auto simp: mark_region_def)
qed

lemma fuzzy_outer_separate:
  "length act = length T \<Longrightarrow> spans_separate found \<Longrightarrow> \<forall>m\<in>set found. covered act i m \<Longrightarrow>
   spans_separate (fuzzy_outer h T maxSkip i act found)"
proof (induction h T maxSkip i act found rule: fuzzy_outer.induct)
  case (1 h T maxSkip i act found)
  show ?case
  proof (cases "i < length T")
    case False
    then show ?thesis using "1.prems" by (subst fuzzy_outer.simps) simp
  next
    case lt: True
    have step: "\<forall>m\<in>set found. covered act (i + 1) m"
      using "1.prems"(3) by (auto simp: covered_def)
    show ?thesis
    proof (cases "act ! i = 1")
      case True
      then show ?thesis
        using "1.IH"(1)[OF lt True "1.prems"(1,2) step] lt
        by (subst fuzzy_outer.simps) simp
    next
      case na: False
      show ?thesis
      proof (cases "fuzzy_inner h T maxSkip root i 0 i")
        case None
        then show ?thesis
          using "1.IH"(2)[OF lt na None "1.prems"(1,2) step] lt na
          by (subst fuzzy_outer.simps) simp
      next
        case (Some e)
        let ?m = "\<lparr>word = substring T (int i) (int e + 1), start = int i, end_pos = int e\<rparr>"
        from fuzzy_inner_bounds[OF Some] have b: "i \<le> e" "e < length T" by auto
        have before: "end_pos m < int i" if "m \<in> set found" for m
        proof (rule ccontr)
          assume "\<not> end_pos m < int i"
          with "1.prems"(3) that have "act ! i = 1"
            by (auto simp: covered_def)
          with na show False by simp
        qed
        have s: "spans_separate (found @ [?m])"
          using "1.prems"(2) b before by (auto simp: spans_separate_def sorted_wrt_append)
        have l: "length (mark_region act i e) = length T"
          using "1.prems"(1) by (simp add: mark_region_length)
        have c: "\<forall>m\<in>set (found @ [?m]). covered (mark_region act i e) (i + 1) m"
          using "1.prems"(1,3) b by (auto simp: covered_def mark_region_nth mark_region_length)
        show ?thesis
          using "1.IH"(3)[OF lt na Some l s c] lt na Some
          by (subst fuzzy_outer.simps) simp
      qed
    qed
  qed
qed

lemma fuzzy_outer_origin:
  "m \<in> set (fuzzy_outer h T maxSkip i act found) \<Longrightarrow> m \<notin> set found \<Longrightarrow>
   \<exists>s e. fuzzy_inner h T maxSkip root s 0 s = Some e \<and>
         m = \<lparr>word = substring T (int s) (int e + 1), start = int s, end_pos = int e\<rparr>"
proof (induction h T maxSkip i act found rule: fuzzy_outer.induct)
  case (1 h T maxSkip i act found)
  from "1.prems" show ?case
    apply (subst (asm) fuzzy_outer.simps)
    using "1.IH" by (fastforce split: if_splits option.splits)
qed

lemma findSensitiveWordsFuzzy_separate: "spans_separate (findSensitiveWordsFuzzy h T maxSkip)"
  unfolding findSensitiveWordsFuzzy_def
  by (rule fuzzy_outer_separate) (simp_all add: spans_separate_def)

lemma findSensitiveWordsFuzzy_origin:
  assumes "m \<in> set (findSensitiveWordsFuzzy h T maxSkip)"
  shows "\<exists>s e. fuzzy_inner h T maxSkip root s 0 s = Some e \<and>
           m = \<lparr>word = substring T (int s) (int e + 1), start = int s, end_pos = int e\<rparr>"
  using assms unfolding findSensitiveWordsFuzzy_def
  by (rule fuzzy_outer_origin) simp

lemma fuzzy_inner_negative:
  "maxSkip < 0 \<Longrightarrow> 0 \<le> skipped \<Longrightarrow>
   fuzzy_inner h T maxSkip currentNode potentialEnd skipped j =
   fuzzy_inner h T 0 currentNode potentialEnd skipped j"
proof (induction h T maxSkip currentNode potentialEnd skipped j rule: fuzzy_inner.induct)
  case (1 h T maxSkip currentNode potentialEnd skipped j)
  show ?case
    apply (subst fuzzy_inner.simps[of h T maxSkip currentNode potentialEnd skipped j])
    apply (subst fuzzy_inner.simps[of h T 0 currentNode potentialEnd skipped j])
    using 1 by (auto split: option.splits)
qed

lemma fuzzy_outer_negative:
  "maxSkip < 0 \<Longrightarrow> fuzzy_outer h T maxSkip i act found = fuzzy_outer h T 0 i act found"
proof (induction h T maxSkip i act found rule: fuzzy_outer.induct)
  case (1 h T maxSkip i act found)
  show ?case
    apply (subst fuzzy_outer.simps[of h T maxSkip i act found])
    apply (subst fuzzy_outer.simps[of h T 0 i act found])
    using 1 by (auto split: option.splits simp: fuzzy_inner_negative)
qed

section \<open>The trie after insertion and after failure-link construction\<close>

lemma trie_inv_child:
  assumes "trie_inv h lab" "n < length h" "map_of (children (h ! n)) c = Some m"
  shows "n < m \<and> m < length h \<and> c \<noteq> [] \<and> lab m = lab n @ [c]"
proof -
  from assms(3) have "(c, m) \<in> set (children (h ! n))" by (rule map_of_SomeD)
  with assms(1,2) show ?thesis unfolding trie_inv_def by blast
qed

lemma trie_inv_child_mem:
  assumes "trie_inv h lab" "n < length h" "(c, m) \<in> set (children (h ! n))"
  shows "map_of (children (h ! n)) c = Some m"
proof -
  from assms(1,2) have "distinct (map fst (children (h ! n)))" unfolding trie_inv_def by blast
  with assms(3) show ?thesis by simp
qed

lemma trie_inv_inj:
  assumes "trie_inv h lab" "n < length h" "m < length h" "lab n = lab m"
  shows "n = m"
proof -
  from assms(1) have "inj_on lab {..<length h}" unfolding trie_inv_def by blast
  with assms(2-) show ?thesis by (auto dest: inj_onD)
qed

lemma trie_inv_parent:
  assumes "trie_inv h lab" "m < length h" "m \<noteq> 0"
  shows "\<exists>n c. n < m \<and> map_of (children (h ! n)) c = Some m \<and> lab m = lab n @ [c]"
proof -
  from assms obtain n c where n: "n < length h" "(c, m) \<in> set (children (h ! n))"
    unfolding trie_inv_def by blast
  from trie_inv_child_mem[OF assms(1) n] have "map_of (children (h ! n)) c = Some m" .
  with trie_inv_child[OF assms(1) n(1) this] show ?thesis by blast
qed

lemma trie_inv_root: "trie_inv h lab \<Longrightarrow> 0 < length h \<and> lab 0 = []"
  unfolding trie_inv_def by simp

lemma trie_inv_lab_Nil:
  assumes "trie_inv h lab" "n < length h" "lab n = []"
  shows "n = 0"
  using trie_inv_inj[OF assms(1,2), of 0] trie_inv_root[OF assms(1)] assms(3) by simp

lemma walk_append:
  "walk h n (xs @ ys) = (case walk h n xs of None \<Rightarrow> None | Some m \<Rightarrow> walk h m ys)"
  by (induction xs arbitrary: n) (auto split: option.splits)

lemma trie_inv_walk:
  assumes "trie_inv h lab"
  shows "n < length h \<Longrightarrow> walk h n cs = Some m \<Longrightarrow> m < length h \<and> lab m = lab n @ cs"
proof (induction cs arbitrary: n)
  case Nil
  then show ?case by simp
next
  case (Cons c cs)
  from Cons.prems(2) obtain k where k: "map_of (children (h ! n)) c = Some k" "walk h k cs = Some m"
    by (auto split: option.splits)
  from trie_inv_child[OF assms Cons.prems(1) k(1)] have "k < length h" "lab k = lab n @ [c]"
    by auto
  with Cons.IH[OF _ k(2)] show ?case by simp
qed

lemma trie_inv_walk_lab:
  assumes "trie_inv h lab"
  shows "n < length h \<Longrightarrow> walk h 0 (lab n) = Some n \<and> [] \<notin> set (lab n)"
proof (induction n rule: less_induct)
  case (less m)
  show ?case
  proof (cases "m = 0")
    case True
    then show ?thesis using trie_inv_root[OF assms] by simp
  next
    case False
    from trie_inv_parent[OF assms less.prems False] obtain n c where
      n: "n < m" "map_of (children (h ! n)) c = Some m" "lab m = lab n @ [c]" by blast
    from n(1) less.prems have nl: "n < length h" by simp
    from less.IH[OF n(1) nl] trie_inv_child[OF assms nl n(2)] n show ?thesis
      by (auto simp: walk_append)
  qed
qed

lemma trie_inv_walk_unique:
  assumes "trie_inv h lab" "walk h 0 p = Some n"
  shows "n < length h \<and> p = lab n"
  using trie_inv_walk[OF assms(1) _ assms(2)] trie_inv_root[OF assms(1)] by simp

lemma trie_inv_prefix_node:
  assumes "trie_inv h lab" "n < length h" "prefix p (lab n)"
  shows "\<exists>a<length h. lab a = p"
proof -
  from assms(3) obtain s where s: "lab n = p @ s" by (auto simp: prefix_def)
  from trie_inv_walk_lab[OF assms(1,2)] s have "walk h 0 (p @ s) = Some n" by simp
  then obtain a where a: "walk h 0 p = Some a" by (auto simp: walk_append split: option.splits)
  from trie_inv_walk_unique[OF assms(1) a] show ?thesis by auto
qed

lemma nth_extend_old:
  "n < length h \<Longrightarrow> (h[node := x] @ [y]) ! n = (if n = node then x else h ! n)"
  by (simp add: nth_append)

lemma nth_extend_new: "(h[node := x] @ [y]) ! length h = y"
  by (simp add: nth_append)

lemma addWord_extend_inv:
  assumes inv: "trie_inv h lab" and node: "node < length h"
    and none: "map_of (children (h ! node)) c = None" and c: "c \<noteq> []"
  defines "h1 \<equiv> (h[node := (h ! node)\<lparr>children := children (h ! node) @ [(c, length h)]\<rparr>]) @ [new_TrieNode]"
    and "lab1 \<equiv> lab(length h := lab node @ [c])"
  shows "trie_inv h1 lab1"
proof -
  let ?N = "length h"
  have len: "length h1 = Suc ?N" by (simp add: h1_def)
  have old: "\<And>n. n < ?N \<Longrightarrow> h1 ! n = (if n = node then (h ! node)\<lparr>children := children (h ! node) @ [(c, ?N)]\<rparr> else h ! n)"
    unfolding h1_def by (simp add: nth_extend_old)
  have new: "h1 ! ?N = new_TrieNode" unfolding h1_def by (rule nth_extend_new)
  have lab_old: "\<And>n. n < ?N \<Longrightarrow> lab1 n = lab n" by (simp add: lab1_def)
  have lab_new: "lab1 ?N = lab node @ [c]" by (simp add: lab1_def)
  have kids: "set (children (h1 ! n)) = (if n = node then insert (c, ?N) (set (children (h ! n))) else if n = ?N then {} else set (children (h ! n)))"
    if "n \<le> ?N" for n
    using that old[of n] new node by (cases "n = ?N") (auto simp: new_TrieNode_def)
  have fresh: "lab node @ [c] \<noteq> lab k" if k: "k < ?N" for k
  proof
    assume e: "lab node @ [c] = lab k"
    then have "lab k \<noteq> []" by auto
    with trie_inv_root[OF inv] have "k \<noteq> 0" by (cases "k = 0") auto
    from trie_inv_parent[OF inv k this] obtain n c' where
      n: "n < k" "map_of (children (h ! n)) c' = Some k" "lab k = lab n @ [c']" by blast
    from e n(3) have "lab n = lab node" "c' = c" by auto
    with trie_inv_inj[OF inv _ node, of n] n(1) k have "n = node" by simp
    with n(2) \<open>c' = c\<close> none show False by simp
  qed
  have 1: "h1 \<noteq> []" "lab1 0 = []"
    using trie_inv_root[OF inv] by (auto simp: h1_def lab1_def)
  have 2: "distinct (map fst (children (h1 ! n)))" if "n < length h1" for n
  proof (cases "n = ?N")
    case True
    then show ?thesis using new by (simp add: new_TrieNode_def)
  next
    case False
    with that len have n: "n < ?N" by simp
    from inv n have d: "distinct (map fst (children (h ! n)))" unfolding trie_inv_def by blast
    show ?thesis
    proof (cases "n = node")
      case True
      from none have "c \<notin> fst ` set (children (h ! node))" by (simp add: map_of_eq_None_iff)
      with d True old[OF n] show ?thesis by simp
    next
      case False
      with d old[OF n] show ?thesis by simp
    qed
  qed
  have 3: "n < m \<and> m < length h1 \<and> c' \<noteq> [] \<and> lab1 m = lab1 n @ [c']"
    if "n < length h1" "(c', m) \<in> set (children (h1 ! n))" for n c' m
  proof -
    from that(1) len have nle: "n \<le> ?N" by simp
    from that(2) kids[OF nle] node have nN: "n \<noteq> ?N" by (auto split: if_splits)
    with nle have n: "n < ?N" by simp
    show ?thesis
    proof (cases "n = node \<and> (c', m) = (c, ?N)")
      case True
      then show ?thesis using node c lab_old[OF node] lab_new len by auto
    next
      case False
      with that(2) kids[OF nle] nN have "(c', m) \<in> set (children (h ! n))"
        by (auto split: if_splits)
      with inv n have "n < m \<and> m < ?N \<and> c' \<noteq> [] \<and> lab m = lab n @ [c']"
        unfolding trie_inv_def by blast
      then show ?thesis using lab_old n len by auto
    qed
  qed
  have 4: "\<exists>n<length h1. \<exists>c'. (c', m) \<in> set (children (h1 ! n))"
    if "m < length h1" "m \<noteq> 0" for m
  proof (cases "m = ?N")
    case True
    have "(c, m) \<in> set (children (h1 ! node))"
      using kids[of node] node True by simp
    with node len show ?thesis by (intro exI[of _ node]) auto
  next
    case False
    with that len have m: "m < ?N" by simp
    from inv m that(2) obtain n c' where n: "n < ?N" "(c', m) \<in> set (children (h ! n))"
      unfolding trie_inv_def by blast
    then have "(c', m) \<in> set (children (h1 ! n))" using kids[of n] by auto
    with n(1) len show ?thesis by (intro exI[of _ n]) auto
  qed
  have 5: "inj_on lab1 {..<length h1}"
  proof (rule inj_onI)
    fix x y assume xy: "x \<in> {..<length h1}" "y \<in> {..<length h1}" "lab1 x = lab1 y"
    show "x = y"
    proof (cases "x = ?N"; cases "y = ?N")
      assume "x = ?N" "y = ?N" then show ?thesis by simp
    next
      assume a: "x = ?N" "y \<noteq> ?N"
      with xy len have "y < ?N" by simp
      from fresh[OF this] xy(3) a lab_old[OF \<open>y < ?N\<close>] lab_new show ?thesis by simp
    next
      assume a: "x \<noteq> ?N" "y = ?N"
      with xy len have "x < ?N" by simp
      from fresh[OF this] xy(3) a lab_old[OF \<open>x < ?N\<close>] lab_new show ?thesis by simp
    next
      assume a: "x \<noteq> ?N" "y \<noteq> ?N"
      with xy len have b: "x < ?N" "y < ?N" by auto
      with xy(3) lab_old have "lab x = lab y" by simp
      from trie_inv_inj[OF inv b this] show ?thesis .
    qed
  qed
  show ?thesis
    unfolding trie_inv_def using 1 2 3 4 5 by blast
qed

lemma grows_refl: "grows h lab h lab"
  by (auto simp: grows_def)

lemma grows_trans:
  assumes "grows h lab h1 lab1" "grows h1 lab1 h2 lab2"
  shows "grows h lab h2 lab2"
proof -
  have a: "length h \<le> length h2" using assms by (simp add: grows_def)
  have b: "lab2 n = lab n \<and> fail (h2 ! n) = fail (h ! n) \<and>
        end_flag (h2 ! n) = end_flag (h ! n) \<and> length_field (h2 ! n) = length_field (h ! n)"
    if "n < length h" for n
  proof -
    from that assms(1) have "n < length h1" by (simp add: grows_def)
    with assms that show ?thesis by (simp add: grows_def)
  qed
  have c: "fail (h2 ! n) = None \<and> \<not> end_flag (h2 ! n)" if "length h \<le> n" "n < length h2" for n
  proof (cases "n < length h1")
    case True
    with assms that show ?thesis by (simp add: grows_def)
  next
    case False
    with assms that show ?thesis by (simp add: grows_def)
  qed
  from a b c show ?thesis unfolding grows_def by blast
qed

lemma addWord_extend_grows:
  fixes c :: jsstring and lab :: "addr \<Rightarrow> jsstring list"
  assumes node: "node < length h"
  defines "h1 \<equiv> (h[node := (h ! node)\<lparr>children := children (h ! node) @ [(c, length h)]\<rparr>]) @ [new_TrieNode]"
    and "lab1 \<equiv> lab(length h := lab node @ [c])"
  shows "grows h lab h1 lab1"
proof -
  have "length h1 = Suc (length h)" by (simp add: h1_def)
  moreover have "h1 ! n = (if n = node then (h ! node)\<lparr>children := children (h ! node) @ [(c, length h)]\<rparr> else h ! n)"
    if "n < length h" for n
    using that unfolding h1_def by (simp add: nth_extend_old)
  moreover have "h1 ! length h = new_TrieNode" unfolding h1_def by (rule nth_extend_new)
  ultimately show ?thesis
    unfolding grows_def lab1_def by (auto simp: new_TrieNode_def le_less_Suc_eq)
qed

lemma addWord_loop_inv:
  "trie_inv h lab \<Longrightarrow> node < length h \<Longrightarrow> [] \<notin> set cs \<Longrightarrow> addWord_loop h node cs = (h', m) \<Longrightarrow>
   \<exists>lab'. trie_inv h' lab' \<and> grows h lab h' lab' \<and> m < length h' \<and> lab' m = lab node @ cs"
proof (induction cs arbitrary: h lab node)
  case Nil
  then show ?case by (auto intro: grows_refl)
next
  case (Cons c cs)
  from Cons.prems(3) have c: "c \<noteq> []" and cs: "[] \<notin> set cs" by auto
  show ?case
  proof (cases "map_of (children (h ! node)) c")
    case (Some nxt)
    with Cons.prems(4) have r: "addWord_loop h nxt cs = (h', m)" by simp
    from trie_inv_child[OF Cons.prems(1,2) Some] have n: "nxt < length h" "lab nxt = lab node @ [c]"
      by auto
    from Cons.IH[OF Cons.prems(1) n(1) cs r] n(2) show ?thesis by auto
  next
    case None
    let ?h1 = "(h[node := (h ! node)\<lparr>children := children (h ! node) @ [(c, length h)]\<rparr>]) @ [new_TrieNode]"
    let ?lab1 = "lab(length h := lab node @ [c])"
    from None Cons.prems(4) have r: "addWord_loop ?h1 (length h) cs = (h', m)" by simp
    have i1: "trie_inv ?h1 ?lab1" by (rule addWord_extend_inv[OF Cons.prems(1,2) None c])
    have g1: "grows h lab ?h1 ?lab1" by (rule addWord_extend_grows[OF Cons.prems(2)])
    have l1: "length h < length ?h1" by simp
    from Cons.IH[OF i1 l1 cs r] obtain lab' where
      l: "trie_inv h' lab'" "grows ?h1 ?lab1 h' lab'" "m < length h'" "lab' m = ?lab1 (length h) @ cs"
      by blast
    from grows_trans[OF g1 l(2)] l show ?thesis by (intro exI[of _ lab']) simp
  qed
qed

lemma concat_code_points: "concat (code_points w) = w"
  by (induction w rule: code_points.induct) auto

lemma code_points_nonempty: "[] \<notin> set (code_points w)"
  by (induction w rule: code_points.induct) auto

lemma trie_inv_cong:
  assumes "trie_inv h lab" "length h' = length h" "\<And>n. n < length h \<Longrightarrow> children (h' ! n) = children (h ! n)"
  shows "trie_inv h' lab"
proof -
  have e: "\<forall>n<length h. children (h' ! n) = children (h ! n)" using assms(3) by simp
  have p: "\<exists>n<length h. \<exists>c. (c, m) \<in> set (children (h' ! n))" if "m < length h" "m \<noteq> 0" for m
  proof -
    from assms(1) that obtain n c where n: "n < length h" "(c, m) \<in> set (children (h ! n))"
      unfolding trie_inv_def by blast
    from e n(1) have "children (h' ! n) = children (h ! n)" by blast
    with n show ?thesis by (intro exI[of _ n] exI[of _ c] conjI) simp_all
  qed
  have q: "h' \<noteq> []" using assms(1,2) unfolding trie_inv_def by auto
  from assms(1) have "lab 0 = [] \<and>
     (\<forall>n<length h. distinct (map fst (children (h ! n)))) \<and>
     (\<forall>n<length h. \<forall>(c, m)\<in>set (children (h ! n)).
        n < m \<and> m < length h \<and> c \<noteq> [] \<and> lab m = lab n @ [c]) \<and>
     inj_on lab {..<length h}" unfolding trie_inv_def by blast
  with e have "lab 0 = [] \<and>
     (\<forall>n<length h. distinct (map fst (children (h' ! n)))) \<and>
     (\<forall>n<length h. \<forall>(c, m)\<in>set (children (h' ! n)).
        n < m \<and> m < length h \<and> c \<noteq> [] \<and> lab m = lab n @ [c]) \<and>
     inj_on lab {..<length h}" by simp
  with p q show ?thesis unfolding trie_inv_def assms(2) by blast
qed

lemma addWord_inv:
  assumes "trie_inv h lab" "lens_ok h lab" "unbuilt h" "words_ok h lab S"
  shows "\<exists>lab'. trie_inv (addWord h w) lab' \<and> lens_ok (addWord h w) lab' \<and>
           unbuilt (addWord h w) \<and> words_ok (addWord h w) lab' (insert w S)"
proof -
  obtain h' m where r: "addWord_loop h root (code_points w) = (h', m)" by (cases "addWord_loop h root (code_points w)")
  from trie_inv_root[OF assms(1)] have z: "0 < length h" "lab 0 = []" by auto
  from addWord_loop_inv[OF assms(1) z(1) code_points_nonempty r] z(2) obtain lab' where
    l: "trie_inv h' lab'" "grows h lab h' lab'" "m < length h'" "lab' m = code_points w"
    by auto
  let ?h2 = "h'[m := (h' ! m)\<lparr>end_flag := True, length_field := length w\<rparr>]"
  have e: "addWord h w = ?h2" using r by (simp add: addWord_def)
  have n2: "?h2 ! n = (if n = m then (h' ! m)\<lparr>end_flag := True, length_field := length w\<rparr> else h' ! n)"
    if "n < length h'" for n using that by (simp add: nth_list_update)
  have 1: "trie_inv ?h2 lab'"
    by (rule trie_inv_cong[OF l(1)]) (auto simp: n2)
  have 2: "lens_ok ?h2 lab'"
    unfolding lens_ok_def
  proof (intro allI impI)
    fix n assume n: "n < length ?h2" "end_flag (?h2 ! n)"
    show "length_field (?h2 ! n) = length (concat (lab' n))"
    proof (cases "n = m")
      case True
      then show ?thesis using l(3,4) n2[of m] by (simp add: concat_code_points)
    next
      case False
      with n n2[of n] have ef: "end_flag (h' ! n)" and eq: "?h2 ! n = h' ! n" by auto
      from l(2) ef n(1) have "n < length h" unfolding grows_def by (cases "n < length h") auto
      with l(2) ef assms(2) show ?thesis unfolding eq grows_def lens_ok_def by auto
    qed
  qed
  have 3: "unbuilt ?h2"
    unfolding unbuilt_def
  proof (intro allI impI)
    fix n assume n: "n < length ?h2"
    then have "fail (?h2 ! n) = fail (h' ! n)" by (cases "n = m") (simp_all add: nth_list_update)
    also have "\<dots> = None" using l(2) assms(3) n unfolding grows_def unbuilt_def
      by (cases "n < length h") auto
    finally show "fail (?h2 ! n) = None" .
  qed
  have old: "n < length h" if "n < length h'" "end_flag (h' ! n)" for n
    using l(2) that unfolding grows_def by (cases "n < length h") auto
  have 4: "words_ok ?h2 lab' (insert w S)"
    unfolding words_ok_def
  proof (intro conjI allI impI ballI)
    fix n assume n: "n < length ?h2" "end_flag (?h2 ! n)"
    show "\<exists>w'\<in>insert w S. lab' n = code_points w'"
    proof (cases "n = m")
      case True
      with l(4) show ?thesis by auto
    next
      case False
      with n n2[of n] have ef: "end_flag (h' ! n)" by auto
      from old[OF _ ef] n(1) have nl: "n < length h" by simp
      with l(2) ef have "end_flag (h ! n)" "lab' n = lab n" unfolding grows_def by auto
      with assms(4) nl show ?thesis unfolding words_ok_def by auto
    qed
  next
    fix w' assume w': "w' \<in> insert w S"
    show "\<exists>n<length ?h2. lab' n = code_points w' \<and> end_flag (?h2 ! n)"
    proof (cases "w' = w")
      case True
      with l(3,4) n2[of m] show ?thesis by (intro exI[of _ m]) simp
    next
      case False
      with w' assms(4) obtain n where n: "n < length h" "lab n = code_points w'" "end_flag (h ! n)"
        unfolding words_ok_def by blast
      from l(2) n have n': "n < length h'" "lab' n = code_points w'" "end_flag (h' ! n)"
        unfolding grows_def by auto
      then have "end_flag (?h2 ! n)" using n2[of n] by (cases "n = m") auto
      with n' show ?thesis by (intro exI[of _ n]) simp
    qed
  qed
  from 1 2 3 4 show ?thesis unfolding e by blast
qed

lemma foldl_addWord_inv:
  "trie_inv h lab \<Longrightarrow> lens_ok h lab \<Longrightarrow> unbuilt h \<Longrightarrow> words_ok h lab S \<Longrightarrow>
   \<exists>lab'. trie_inv (foldl addWord h D) lab' \<and> lens_ok (foldl addWord h D) lab' \<and>
          unbuilt (foldl addWord h D) \<and> words_ok (foldl addWord h D) lab' (S \<union> set D)"
proof (induction D arbitrary: h lab S)
  case Nil
  then show ?case by auto
next
  case (Cons w D)
  from addWord_inv[OF Cons.prems, of w] obtain lab1 where
    "trie_inv (addWord h w) lab1" "lens_ok (addWord h w) lab1" "unbuilt (addWord h w)"
    "words_ok (addWord h w) lab1 (insert w S)" by blast
  from Cons.IH[OF this] show ?case by simp
qed

lemma insertWords_inv:
  "\<exists>lab. trie_inv (insertWords D) lab \<and> lens_ok (insertWords D) lab \<and> unbuilt (insertWords D) \<and>
         words_ok (insertWords D) lab (set D)"
proof -
  have "trie_inv new_filter (\<lambda>n. [])"
    by (simp add: trie_inv_def new_filter_def new_TrieNode_def inj_on_def)
  moreover have "lens_ok new_filter (\<lambda>n. [])" "unbuilt new_filter" "words_ok new_filter (\<lambda>n. []) {}"
    by (simp_all add: lens_ok_def unbuilt_def words_ok_def new_filter_def new_TrieNode_def)
  ultimately show ?thesis
    unfolding insertWords_def using foldl_addWord_inv[of new_filter "\<lambda>n. []" "{}" D] by simp
qed

lemma nth_beyond: "length xs = length ys \<Longrightarrow> length xs \<le> k \<Longrightarrow> xs ! k = ys ! k"
proof (induction xs ys arbitrary: k rule: list_induct2)
  case Nil
  then show ?case by simp
next
  case (Cons x xs y ys)
  then obtain k' where "k = Suc k'" by (cases k) auto
  with Cons show ?case by simp
qed

lemma nth_list_update_any: "h[n := y] ! k = (if k = n \<and> n < length h then y else h ! k)"
proof (cases "k < length h")
  case True
  then show ?thesis by (auto simp: nth_list_update)
next
  case False
  then have "h[n := y] ! k = h ! k" by (intro nth_beyond) auto
  with False show ?thesis by auto
qed

lemma same_shape_refl: "same_shape h h"
  by (simp add: same_shape_def)

lemma same_shape_trans: "same_shape h h1 \<Longrightarrow> same_shape h1 h2 \<Longrightarrow> same_shape h h2"
  by (simp add: same_shape_def)

lemma same_shape_fail_update: "same_shape h (h[n := (h ! n)\<lparr>fail := x\<rparr>])"
  by (simp add: same_shape_def nth_list_update_any)

lemma same_shape_trie_inv: "same_shape h h' \<Longrightarrow> trie_inv h lab \<Longrightarrow> trie_inv h' lab"
  by (rule trie_inv_cong) (auto simp: same_shape_def)

lemma same_shape_lens_ok: "same_shape h h' \<Longrightarrow> lens_ok h lab \<Longrightarrow> lens_ok h' lab"
  by (simp add: same_shape_def lens_ok_def)

lemma same_shape_words_ok: "same_shape h h' \<Longrightarrow> words_ok h lab S \<Longrightarrow> words_ok h' lab S"
  by (simp add: same_shape_def words_ok_def)

lemma good_fail_update:
  assumes "good h lab n" "n \<noteq> m"
  shows "good (h[m := (h ! m)\<lparr>fail := x\<rparr>]) lab n"
  using assms by (simp add: good_def nth_list_update_any)

lemma good_fail_update_self:
  assumes "m < length h" "t < length h" "strict_suffix (lab t) (lab m)"
    "\<forall>k<length h. strict_suffix (lab k) (lab m) \<longrightarrow> suffix (lab k) (lab t)"
  shows "good (h[m := (h ! m)\<lparr>fail := Some t\<rparr>]) lab m"
  using assms by (auto simp: good_def)

lemma strict_suffix_Nil: "strict_suffix [] xs \<longleftrightarrow> xs \<noteq> []"
  by (auto simp: strict_suffix_def)

lemma strict_suffix_append_same: "strict_suffix xs ys \<Longrightarrow> strict_suffix (xs @ zs) (ys @ zs)"
  by (auto simp: strict_suffix_def suffix_def)

lemma suffix_strict_suffix_trans: "suffix xs ys \<Longrightarrow> strict_suffix ys zs \<Longrightarrow> strict_suffix xs zs"
  by (auto simp: strict_suffix_def suffix_def)

lemma good_fail:
  assumes "good h lab n" "n \<noteq> 0"
  shows "\<exists>m<length h. fail (h ! n) = Some m \<and> strict_suffix (lab m) (lab n) \<and>
           (\<forall>k<length h. strict_suffix (lab k) (lab n) \<longrightarrow> suffix (lab k) (lab m))"
  using assms unfolding good_def by blast

lemma fail_result_step:
  assumes inv: "trie_inv h lab" and a: "a < length h"
    and none: "map_of (children (h ! a)) c = None"
    and a': "strict_suffix (lab a') (lab a)"
      "\<forall>k<length h. strict_suffix (lab k) (lab a) \<longrightarrow> suffix (lab k) (lab a')"
    and r: "fail_result h lab a' c r"
  shows "fail_result h lab a c r"
proof -
  have below: "suffix (lab k) (lab a')"
    if k: "k < length h" "suffix (lab k) (lab a)" "map_of (children (h ! k)) c \<noteq> None" for k
  proof -
    from k(3) none have "k \<noteq> a" by auto
    with trie_inv_inj[OF inv k(1) a] have "lab k \<noteq> lab a" by auto
    with k(2) have "strict_suffix (lab k) (lab a)" by (simp add: strict_suffix_def)
    with a'(2) k(1) show ?thesis by blast
  qed
  show ?thesis
  proof (cases r)
    case None
    with r have n: "\<forall>k<length h. suffix (lab k) (lab a') \<longrightarrow> map_of (children (h ! k)) c = None"
      by (simp add: fail_result_def)
    have "map_of (children (h ! k)) c = None" if "k < length h" "suffix (lab k) (lab a)" for k
      using below[OF that] n that(1) by blast
    with None show ?thesis by (simp add: fail_result_def)
  next
    case (Some b)
    with r have b: "b < length h" "suffix (lab b) (lab a')" "map_of (children (h ! b)) c \<noteq> None"
      "\<forall>k<length h. suffix (lab k) (lab a') \<and> map_of (children (h ! k)) c \<noteq> None \<longrightarrow>
                suffix (lab k) (lab b)"
      by (simp_all add: fail_result_def)
    from b(2) a'(1) have 1: "suffix (lab b) (lab a)"
      by (auto simp: strict_suffix_def intro: suffix_order.trans)
    have 2: "suffix (lab k) (lab b)"
      if "k < length h" "suffix (lab k) (lab a)" "map_of (children (h ! k)) c \<noteq> None" for k
      using below[OF that] b(4) that by blast
    from Some b(1,3) 1 2 show ?thesis by (simp add: fail_result_def)
  qed
qed

lemma find_fail_ok:
  assumes inv: "trie_inv h lab" and rootf: "fail (h ! 0) = None"
    and G: "\<forall>n<length h. length (lab n) \<le> d \<longrightarrow> good h lab n"
  shows "a < length h \<Longrightarrow> length (lab a) \<le> d \<Longrightarrow>
    \<exists>r. find_fail h (Some a) c = Some r \<and> fail_result h lab a c r"
proof (induction "length (lab a)" arbitrary: a rule: less_induct)
  case less
  show ?case
  proof (cases "map_of (children (h ! a)) c = None")
    case False
    then have "find_fail h (Some a) c = Some (Some a)" by (subst find_fail.simps) auto
    moreover from False less.prems have "fail_result h lab a c (Some a)"
      by (simp add: fail_result_def)
    ultimately show ?thesis by blast
  next
    case True
    then have u: "find_fail h (Some a) c = find_fail h (fail (h ! a)) c"
      by (subst find_fail.simps) simp
    show ?thesis
    proof (cases "a = 0")
      case a0: True
      with u rootf have "find_fail h (Some a) c = Some None"
        by (simp add: find_fail.simps[of h None])
      moreover have "fail_result h lab a c None"
        unfolding fail_result_def
      proof (simp, intro allI impI)
        fix k assume k: "k < length h" "suffix (lab k) (lab a)"
        with a0 trie_inv_root[OF inv] have "lab k = []" by simp
        from trie_inv_lab_Nil[OF inv k(1) this] a0 True
        show "map_of (children (h ! k)) c = None" by simp
      qed
      ultimately show ?thesis by blast
    next
      case False
      from G less.prems have "good h lab a" by blast
      from good_fail[OF this False] obtain a' where a': "a' < length h" "fail (h ! a) = Some a'"
        "strict_suffix (lab a') (lab a)"
        "\<forall>k<length h. strict_suffix (lab k) (lab a) \<longrightarrow> suffix (lab k) (lab a')" by blast
      from a'(3) have lt: "length (lab a') < length (lab a)" by (rule suffix_length_less)
      with less.prems have "length (lab a') \<le> d" by simp
      from less.hyps[OF lt a'(1) this] obtain r where
        r: "find_fail h (Some a') c = Some r" "fail_result h lab a' c r" by blast
      from fail_result_step[OF inv less.prems(1) True a'(3,4) r(2)] r(1) u a'(2)
      show ?thesis by simp
    qed
  qed
qed

lemma strict_suffix_snoc:
  "strict_suffix (xs @ [x]) (ys @ [y]) \<longleftrightarrow> x = y \<and> strict_suffix xs ys"
  by (auto simp: strict_suffix_def)

lemma visit_step_fail:
  assumes vi: "visit_inv h lab cur ((c, m) # kids) q"
  shows "\<exists>t<length h. strict_suffix (lab t) (lab m) \<and>
           (\<forall>k<length h. strict_suffix (lab k) (lab m) \<longrightarrow> suffix (lab k) (lab t)) \<and>
           visit_children h cur ((c, m) # kids) q =
           visit_children (h[m := (h ! m)\<lparr>fail := Some t\<rparr>]) cur kids (q @ [m])"
proof -
  from vi have inv: "trie_inv h lab" and rootf: "fail (h ! 0) = None" and cur: "cur < length h"
    and gc: "good h lab cur" and mem: "(c, m) \<in> set (children (h ! cur))"
    and G: "\<forall>n<length h. length (lab n) \<le> length (lab cur) \<longrightarrow> good h lab n"
    unfolding visit_inv_def by auto
  from trie_inv_child[OF inv cur trie_inv_child_mem[OF inv cur mem]]
  have m: "cur < m" "m < length h" "c \<noteq> []" "lab m = lab cur @ [c]" by auto
  from trie_inv_root[OF inv] have z: "0 < length h" "lab 0 = []" by auto
  have up: "\<exists>p<length h. lab k = lab p @ [c] \<and> strict_suffix (lab p) (lab cur) \<and>
              map_of (children (h ! p)) c = Some k"
    if k: "k < length h" "strict_suffix (lab k) (lab m)" "k \<noteq> 0" for k
  proof -
    from trie_inv_parent[OF inv k(1,3)] obtain p c' where
      p: "p < k" "map_of (children (h ! p)) c' = Some k" "lab k = lab p @ [c']" by blast
    from k(2) have "c' = c \<and> strict_suffix (lab p) (lab cur)"
      unfolding p(3) m(4) by (simp add: strict_suffix_snoc)
    with p k(1) show ?thesis by (intro exI[of _ p]) simp
  qed
  show ?thesis
  proof (cases "cur = 0")
    case True
    have s: "strict_suffix (lab 0) (lab m)" using z m by (simp add: strict_suffix_Nil)
    have mx: "suffix (lab k) (lab 0)" if k: "k < length h" "strict_suffix (lab k) (lab m)" for k
    proof (cases "k = 0")
      case False
      from up[OF k False] True z show ?thesis by (auto simp: strict_suffix_def)
    qed simp
    from s mx True z show ?thesis by (intro exI[of _ 0]) simp
  next
    case False
    from good_fail[OF gc False] obtain f0 where f0: "f0 < length h" "fail (h ! cur) = Some f0"
      "strict_suffix (lab f0) (lab cur)"
      "\<forall>k<length h. strict_suffix (lab k) (lab cur) \<longrightarrow> suffix (lab k) (lab f0)" by blast
    from f0(3) have "length (lab f0) \<le> length (lab cur)"
      using suffix_length_less[of "lab f0" "lab cur"] by simp
    from find_fail_ok[OF inv rootf G f0(1) this, of c] obtain r where
      r: "find_fail h (Some f0) c = Some r" "fail_result h lab f0 c r" by blast
    show ?thesis
    proof (cases r)
      case None
      have s: "strict_suffix (lab 0) (lab m)" using z m by (simp add: strict_suffix_Nil)
      have mx: "suffix (lab k) (lab 0)" if k: "k < length h" "strict_suffix (lab k) (lab m)" for k
      proof (cases "k = 0")
        case k0: False
        from up[OF k k0] obtain p where p: "p < length h" "strict_suffix (lab p) (lab cur)"
          "map_of (children (h ! p)) c = Some k" by blast
        from f0(4) p(1,2) have "suffix (lab p) (lab f0)" by blast
        with r(2) None p(1,3) show ?thesis by (simp add: fail_result_def)
      qed simp
      from s mx None r(1) f0(2) False z show ?thesis by (intro exI[of _ 0]) simp
    next
      case (Some b)
      with r(2) obtain t where b: "b < length h" "suffix (lab b) (lab f0)"
        "map_of (children (h ! b)) c = Some t"
        "\<forall>k<length h. suffix (lab k) (lab f0) \<and> map_of (children (h ! k)) c \<noteq> None \<longrightarrow>
                suffix (lab k) (lab b)"
        by (auto simp: fail_result_def)
      from trie_inv_child[OF inv b(1,3)] have t: "t < length h" "lab t = lab b @ [c]" by auto
      from suffix_strict_suffix_trans[OF b(2) f0(3)] have "strict_suffix (lab b) (lab cur)" .
      then have s: "strict_suffix (lab t) (lab m)"
        unfolding t(2) m(4) by (rule strict_suffix_append_same)
      have mx: "suffix (lab k) (lab t)" if k: "k < length h" "strict_suffix (lab k) (lab m)" for k
      proof (cases "k = 0")
        case True
        with z show ?thesis by simp
      next
        case k0: False
        from up[OF k k0] obtain p where p: "p < length h" "lab k = lab p @ [c]"
          "strict_suffix (lab p) (lab cur)" "map_of (children (h ! p)) c = Some k" by blast
        from f0(4) p(1,3) have "suffix (lab p) (lab f0)" by blast
        with b(4) p(1,4) have "suffix (lab p) (lab b)" by simp
        then show ?thesis unfolding p(2) t(2) by simp
      qed
      from s mx Some r(1) f0(2) False t(1) b(3) show ?thesis by (intro exI[of _ t]) simp
    qed
  qed
qed

lemma visit_step_inv:
  assumes vi: "visit_inv h lab cur ((c, m) # kids) q"
    and t: "t < length h" "strict_suffix (lab t) (lab m)"
      "\<forall>k<length h. strict_suffix (lab k) (lab m) \<longrightarrow> suffix (lab k) (lab t)"
  shows "visit_inv (h[m := (h ! m)\<lparr>fail := Some t\<rparr>]) lab cur kids (q @ [m])"
proof -
  let ?h1 = "h[m := (h ! m)\<lparr>fail := Some t\<rparr>]"
  from vi have inv: "trie_inv h lab" and rootf: "fail (h ! 0) = None" and cur: "cur < length h"
    and gc: "good h lab cur" and mem: "(c, m) \<in> set (children (h ! cur))"
    and sub: "set kids \<subseteq> set (children (h ! cur))"
    and G: "\<forall>n<length h. length (lab n) \<le> length (lab cur) \<longrightarrow> good h lab n"
    and Q: "\<forall>a\<in>set q. a < length h \<and> good h lab a \<and> length (lab cur) \<le> length (lab a) \<and>
                 length (lab a) \<le> length (lab cur) + 1"
    and S: "sorted_wrt (\<lambda>a b. length (lab a) \<le> length (lab b)) q"
    and C: "\<forall>n<length h. good h lab n \<or> (\<exists>a\<in>set q. strict_prefix (lab a) (lab n)) \<or>
                   (\<exists>(c, m)\<in>set ((c, m) # kids). prefix (lab m) (lab n))"
    unfolding visit_inv_def by auto
  from trie_inv_child[OF inv cur trie_inv_child_mem[OF inv cur mem]]
  have m: "cur < m" "m < length h" "c \<noteq> []" "lab m = lab cur @ [c]" by auto
  have ss: "same_shape h ?h1" by (rule same_shape_fail_update)
  have len: "length ?h1 = length h" by simp
  have gm: "good ?h1 lab m" by (rule good_fail_update_self[OF m(2) t])
  have gk: "good ?h1 lab n" if "good h lab n" for n
    using that gm good_fail_update[of h lab n m] by (cases "n = m") auto
  have 1: "trie_inv ?h1 lab" by (rule same_shape_trie_inv[OF ss inv])
  have 2: "fail (?h1 ! 0) = None" using rootf m(1) by (simp add: nth_list_update_any)
  have 3: "set kids \<subseteq> set (children (?h1 ! cur))"
    using sub ss by (simp add: same_shape_def)
  have 4: "\<forall>n<length ?h1. length (lab n) \<le> length (lab cur) \<longrightarrow> good ?h1 lab n"
    using G gk by simp
  have 5: "\<forall>a\<in>set (q @ [m]). a < length ?h1 \<and> good ?h1 lab a \<and> length (lab cur) \<le> length (lab a) \<and>
                 length (lab a) \<le> length (lab cur) + 1"
    using Q gk gm m by auto
  have 6: "sorted_wrt (\<lambda>a b. length (lab a) \<le> length (lab b)) (q @ [m])"
    using S Q m(4) by (auto simp: sorted_wrt_append)
  have 7: "good ?h1 lab n \<or> (\<exists>a\<in>set (q @ [m]). strict_prefix (lab a) (lab n)) \<or>
                   (\<exists>(c, m)\<in>set kids. prefix (lab m) (lab n))" if n: "n < length h" for n
  proof -
    from C n consider "good h lab n" | "\<exists>a\<in>set q. strict_prefix (lab a) (lab n)"
      | "prefix (lab m) (lab n)" | "\<exists>(c, m)\<in>set kids. prefix (lab m) (lab n)" by auto
    then show ?thesis
    proof cases
      case 1
      then show ?thesis using gk by simp
    next
      case 2
      then show ?thesis by auto
    next
      case 3
      show ?thesis
      proof (cases "lab m = lab n")
        case True
        from trie_inv_inj[OF inv m(2) n True] gm show ?thesis by simp
      next
        case False
        with 3 have "strict_prefix (lab m) (lab n)" by (simp add: strict_prefix_def)
        then show ?thesis by auto
      qed
    next
      case 4
      then show ?thesis by simp
    qed
  qed
  show ?thesis
    unfolding visit_inv_def using 1 2 3 4 5 6 7 cur gk[OF gc] len by simp
qed

lemma visit_children_ok:
  "visit_inv h lab cur kids q \<Longrightarrow>
   \<exists>h' q'. visit_children h cur kids q = Some (h', q') \<and> bfs_inv h' lab q' \<and> same_shape h h' \<and>
           mset q' = mset q + mset (map snd kids)"
proof (induction kids arbitrary: h q)
  case Nil
  then have "bfs_inv h lab q"
    unfolding visit_inv_def bfs_inv_def by (auto intro: le_trans)
  then show ?case by (simp add: same_shape_refl)
next
  case (Cons k kids)
  obtain c m where k: "k = (c, m)" by (cases k)
  from visit_step_fail[OF Cons.prems[unfolded k]] obtain t where
    t: "t < length h" "strict_suffix (lab t) (lab m)"
    "\<forall>k<length h. strict_suffix (lab k) (lab m) \<longrightarrow> suffix (lab k) (lab t)"
    "visit_children h cur ((c, m) # kids) q =
     visit_children (h[m := (h ! m)\<lparr>fail := Some t\<rparr>]) cur kids (q @ [m])" by blast
  let ?h1 = "h[m := (h ! m)\<lparr>fail := Some t\<rparr>]"
  from Cons.IH[OF visit_step_inv[OF Cons.prems[unfolded k] t(1,2,3)]] obtain h' q' where
    r: "visit_children ?h1 cur kids (q @ [m]) = Some (h', q')" "bfs_inv h' lab q'"
    "same_shape ?h1 h'" "mset q' = mset (q @ [m]) + mset (map snd kids)" by blast
  have "same_shape h h'" by (rule same_shape_trans[OF same_shape_fail_update r(3)])
  with r t(4) k show ?case by simp
qed

lemma bfs_inv_visit_inv:
  assumes bi: "bfs_inv h lab (cur # rest)"
  shows "visit_inv h lab cur (children (h ! cur)) rest"
proof -
  from bi have inv: "trie_inv h lab" and rootf: "fail (h ! 0) = None"
    and cur: "cur < length h" "good h lab cur"
    and Q: "\<forall>a\<in>set rest. a < length h \<and> good h lab a"
    and S: "\<forall>a\<in>set rest. length (lab cur) \<le> length (lab a)"
      "sorted_wrt (\<lambda>a b. length (lab a) \<le> length (lab b)) rest"
    and B: "\<forall>b\<in>set (cur # rest). length (lab b) \<le> length (lab cur) + 1"
    and C: "\<forall>n<length h. good h lab n \<or> (\<exists>a\<in>set (cur # rest). strict_prefix (lab a) (lab n))"
    unfolding bfs_inv_def by auto
  have G: "good h lab n" if n: "n < length h" "length (lab n) \<le> length (lab cur)" for n
  proof (rule ccontr)
    assume "\<not> good h lab n"
    with C n(1) obtain a where a: "a \<in> set (cur # rest)" "strict_prefix (lab a) (lab n)" by blast
    from a(2) have "length (lab a) < length (lab n)" by (rule prefix_length_less)
    moreover from a(1) S(1) have "length (lab cur) \<le> length (lab a)" by auto
    ultimately show False using n(2) by simp
  qed
  have K: "good h lab n \<or> (\<exists>a\<in>set rest. strict_prefix (lab a) (lab n)) \<or>
           (\<exists>(c, m)\<in>set (children (h ! cur)). prefix (lab m) (lab n))"
    if n: "n < length h" for n
  proof -
    from C n consider "good h lab n" | "\<exists>a\<in>set rest. strict_prefix (lab a) (lab n)"
      | "strict_prefix (lab cur) (lab n)" by auto
    then show ?thesis
    proof cases
      case 3
      then obtain c s where cs: "lab n = lab cur @ c # s"
        by (auto simp: strict_prefix_def prefix_def neq_Nil_conv)
      then have p: "prefix (lab cur @ [c]) (lab n)" by (simp add: prefix_def)
      from trie_inv_prefix_node[OF inv n p] obtain k where k: "k < length h" "lab k = lab cur @ [c]"
        by blast
      then have "k \<noteq> 0" using trie_inv_root[OF inv] by (cases "k = 0") auto
      from trie_inv_parent[OF inv k(1) this] obtain p' c' where
        p': "p' < k" "map_of (children (h ! p')) c' = Some k" "lab k = lab p' @ [c']" by blast
      from p'(3) k(2) have e: "lab p' = lab cur" "c' = c" by auto
      from p'(1) k(1) have "p' < length h" by simp
      from trie_inv_inj[OF inv this cur(1) e(1)] p'(2) e(2)
      have mem: "(c, k) \<in> set (children (h ! cur))" by (auto dest: map_of_SomeD)
      from p k(2) have "prefix (lab k) (lab n)" by simp
      with mem have "\<exists>(c, m)\<in>set (children (h ! cur)). prefix (lab m) (lab n)"
        by (intro bexI[of _ "(c, k)"]) simp_all
      then show ?thesis by blast
    qed auto
  qed
  show ?thesis
    unfolding visit_inv_def using inv rootf cur G Q S B K by auto
qed

lemma bfs_ok_aux:
  assumes "wf R" and R: "R = inv_image (mult (measure (\<lambda>a. N - a))) mset"
  shows "length h = N \<Longrightarrow> bfs_inv h lab q \<Longrightarrow>
         \<exists>h'. bfs h q = Some h' \<and> bfs_inv h' lab [] \<and> same_shape h h'"
  using assms(1)
proof (induction q arbitrary: h rule: wf_induct_rule)
  case (less q)
  show ?case
  proof (cases q)
    case Nil
    with less.prems show ?thesis by (simp add: bfs.simps same_shape_refl)
  next
    case (Cons cur rest)
    let ?kids = "children (h ! cur)"
    from bfs_inv_visit_inv[OF less.prems(2)[unfolded Cons]]
    have vi: "visit_inv h lab cur ?kids rest" .
    from visit_children_ok[OF vi] obtain h1 q1 where
      r: "visit_children h cur ?kids rest = Some (h1, q1)" "bfs_inv h1 lab q1" "same_shape h h1"
      "mset q1 = mset rest + mset (map snd ?kids)" by blast
    from vi have inv: "trie_inv h lab" and cur: "cur < length h" unfolding visit_inv_def by auto
    have "\<forall>k\<in>#mset (map snd ?kids). \<exists>j\<in>#{#cur#}. (k, j) \<in> measure (\<lambda>a. N - a)"
    proof
      fix k assume "k \<in># mset (map snd ?kids)"
      then obtain c where "(c, k) \<in> set ?kids" by auto
      from trie_inv_child[OF inv cur trie_inv_child_mem[OF inv cur this]] cur less.prems(1)
      show "\<exists>j\<in>#{#cur#}. (k, j) \<in> measure (\<lambda>a. N - a)" by auto
    qed
    from one_step_implies_mult[OF _ this, of "mset rest"]
    have "(mset q1, mset q) \<in> mult (measure (\<lambda>a. N - a))"
      unfolding r(4) Cons by simp
    then have dec: "(q1, q) \<in> R" unfolding R by simp
    from r(3) less.prems(1) have len: "length h1 = N" by (simp add: same_shape_def)
    from less.IH[OF dec len r(2)] obtain h' where
      h': "bfs h1 q1 = Some h'" "bfs_inv h' lab []" "same_shape h1 h'" by auto
    have "bfs h q = Some h'" unfolding Cons using r(1) h'(1) by (subst bfs.simps) simp
    with h'(2) same_shape_trans[OF r(3) h'(3)] show ?thesis by simp
  qed
qed

lemma bfs_ok:
  assumes "bfs_inv h lab q"
  shows "\<exists>h'. bfs h q = Some h' \<and> bfs_inv h' lab [] \<and> same_shape h h'"
proof -
  have "wf (inv_image (mult (measure (\<lambda>a. length h - a))) (mset :: addr list \<Rightarrow> addr multiset))"
    by (intro wf_inv_image wf_mult wf_measure)
  from bfs_ok_aux[OF this refl refl assms] show ?thesis .
qed

lemma buildFailPointers_ok:
  assumes inv: "trie_inv h lab" and lens: "lens_ok h lab"
  shows "\<exists>h'. buildFailPointers h = Some h' \<and> built h' lab \<and> same_shape h h'"
proof -
  let ?h0 = "h[root := (h ! root)\<lparr>fail := None\<rparr>]"
  have ss: "same_shape h ?h0" by (rule same_shape_fail_update)
  have inv0: "trie_inv ?h0 lab" by (rule same_shape_trie_inv[OF ss inv])
  from trie_inv_root[OF inv] have z: "0 < length h" "lab 0 = []" by auto
  have cov: "good ?h0 lab n \<or> (\<exists>a\<in>set [0]. strict_prefix (lab a) (lab n))"
    if "n < length h" for n
  proof (cases "n = 0")
    case True
    then show ?thesis by (simp add: good_def)
  next
    case False
    with trie_inv_lab_Nil[OF inv that] have "lab n \<noteq> []" by auto
    with z show ?thesis by (simp add: strict_prefix_def)
  qed
  have "bfs_inv ?h0 lab [0]"
    unfolding bfs_inv_def using inv0 z cov by (simp add: good_def)
  from bfs_ok[OF this] obtain h' where
    h': "bfs ?h0 [0] = Some h'" "bfs_inv h' lab []" "same_shape ?h0 h'" by blast
  have s: "same_shape h h'" by (rule same_shape_trans[OF ss h'(3)])
  have "built h' lab"
    unfolding built_def using h'(2) same_shape_lens_ok[OF s lens] by (simp add: bfs_inv_def)
  with h'(1) s show ?thesis by (simp add: buildFailPointers_def)
qed

lemma loadSensitiveWords_ok:
  "\<exists>h lab. loadSensitiveWords D = Some h \<and> built h lab \<and> words_ok h lab (set D) \<and>
           same_shape (insertWords D) h"
proof -
  from insertWords_inv[of D] obtain lab where
    i: "trie_inv (insertWords D) lab" "lens_ok (insertWords D) lab"
    "words_ok (insertWords D) lab (set D)" by blast
  from buildFailPointers_ok[OF i(1,2)] obtain h' where
    h': "buildFailPointers (insertWords D) = Some h'" "built h' lab" "same_shape (insertWords D) h'"
    by blast
  from same_shape_words_ok[OF h'(3) i(3)] h' show ?thesis
    unfolding loadSensitiveWords_def by blast
qed

section \<open>The exact scanner on a built automaton\<close>

lemma substring_length:
  assumes "a \<le> b"
  shows "int (length (substring s a b)) =
         min (max b 0) (int (length s)) - min (max a 0) (int (length s))"
  using assms by (auto simp: substring_def Let_def min_def max_def)

lemma substring_length_mono:
  assumes "a \<le> a'" "a' \<le> b"
  shows "length (substring s a' b) \<le> length (substring s a b)"
proof -
  have "int (length (substring s a' b)) \<le> int (length (substring s a b))"
    using assms by (simp add: substring_length)
  then show ?thesis by simp
qed

lemma built_fail:
  assumes "built h lab" "n < length h" "n \<noteq> 0"
  shows "\<exists>m<length h. fail (h ! n) = Some m \<and> strict_suffix (lab m) (lab n) \<and>
           (\<forall>k<length h. strict_suffix (lab k) (lab n) \<longrightarrow> suffix (lab k) (lab m))"
  using assms good_fail[of h lab n] unfolding built_def by blast

lemma fall_back_post_step:
  assumes inv: "trie_inv h lab" and n: "n < length h"
    and none: "map_of (children (h ! n)) c = None"
    and m: "strict_suffix (lab m) (lab n)"
      "\<forall>k<length h. strict_suffix (lab k) (lab n) \<longrightarrow> suffix (lab k) (lab m)"
    and p: "fall_back_post h lab m c n'"
  shows "fall_back_post h lab n c n'"
proof -
  from p have n': "n' < length h" "suffix (lab n') (lab m)"
    "map_of (children (h ! n')) c = None \<longrightarrow> n' = 0"
    and mx: "\<And>k. k < length h \<Longrightarrow> suffix (lab k) (lab m) \<Longrightarrow>
               map_of (children (h ! k)) c \<noteq> None \<Longrightarrow> suffix (lab k) (lab n')"
    unfolding fall_back_post_def by blast+
  from m(1) have "suffix (lab m) (lab n)" by (simp add: strict_suffix_def)
  with n'(2) have 1: "suffix (lab n') (lab n)" by (rule suffix_order.trans)
  have 2: "suffix (lab k) (lab n')"
    if k: "k < length h" "suffix (lab k) (lab n)" "map_of (children (h ! k)) c \<noteq> None" for k
  proof -
    from k(3) none have "k \<noteq> n" by auto
    with trie_inv_inj[OF inv k(1) n] have "lab k \<noteq> lab n" by auto
    with k(2) have "strict_suffix (lab k) (lab n)" by (simp add: strict_suffix_def)
    with m(2) k(1) have "suffix (lab k) (lab m)" by blast
    from mx[OF k(1) this k(3)] show ?thesis .
  qed
  show ?thesis
    unfolding fall_back_post_def using n'(1,3) 1 2 by blast
qed

lemma fall_back_ok:
  assumes b: "built h lab"
  shows "n < length h \<Longrightarrow>
    \<exists>n'. fall_back h (Some n) c = Some (Inr n') \<and> fall_back_post h lab n c n'"
proof (induction "length (lab n)" arbitrary: n rule: less_induct)
  case less
  from b have inv: "trie_inv h lab" by (simp add: built_def)
  show ?case
  proof (cases "n \<noteq> root \<and> map_of (children (h ! n)) c = None")
    case False
    have e: "fall_back h (Some n) c = Some (Inr n)"
      by (subst fall_back.simps) (use False in auto)
    from False have z: "map_of (children (h ! n)) c = None \<longrightarrow> n = 0" by blast
    have "fall_back_post h lab n c n"
      unfolding fall_back_post_def using less.prems z by simp
    with e show ?thesis by blast
  next
    case True
    have u: "fall_back h (Some n) c = fall_back h (fail (h ! n)) c"
      by (subst fall_back.simps) (use True in simp)
    from True have n0: "n \<noteq> 0" and none: "map_of (children (h ! n)) c = None" by simp_all
    from built_fail[OF b less.prems n0] obtain m where
      m: "m < length h" "fail (h ! n) = Some m" "strict_suffix (lab m) (lab n)"
      "\<forall>k<length h. strict_suffix (lab k) (lab n) \<longrightarrow> suffix (lab k) (lab m)" by blast
    from less.hyps[OF suffix_length_less[OF m(3)] m(1)] obtain n' where
      n': "fall_back h (Some m) c = Some (Inr n')" "fall_back_post h lab m c n'" by blast
    from fall_back_post_step[OF inv less.prems none m(3,4) n'(2)]
    have "fall_back_post h lab n c n'" .
    moreover have "fall_back h (Some n) c = Some (Inr n')" using u m(2) n'(1) by simp
    ultimately show ?thesis by blast
  qed
qed

lemma longest_in_root:
  assumes "trie_inv h lab"
  shows "longest_in h lab root []"
  using trie_inv_root[OF assms] by (simp add: longest_in_def)

lemma longest_in_step:
  assumes b: "built h lab" and li: "longest_in h lab node P"
    and n: "n < length h" "suffix (lab n) (lab node)"
      "map_of (children (h ! n)) c = None \<longrightarrow> n = 0"
      "\<forall>k<length h. suffix (lab k) (lab node) \<and> map_of (children (h ! k)) c \<noteq> None \<longrightarrow>
             suffix (lab k) (lab n)"
  shows "longest_in h lab (case map_of (children (h ! n)) c of Some m \<Rightarrow> m | None \<Rightarrow> root) (P @ [c])"
proof -
  from b have inv: "trie_inv h lab" by (simp add: built_def)
  from trie_inv_root[OF inv] have z: "0 < length h" "lab 0 = []" by auto
  from li have node: "suffix (lab node) P"
    "\<forall>k<length h. suffix (lab k) P \<longrightarrow> suffix (lab k) (lab node)"
    by (simp_all add: longest_in_def)
  have up: "\<exists>p<length h. lab k = lab p @ [c] \<and> suffix (lab p) (lab n) \<and>
              map_of (children (h ! p)) c = Some k"
    if k: "k < length h" "suffix (lab k) (P @ [c])" "k \<noteq> 0" for k
  proof -
    from trie_inv_parent[OF inv k(1,3)] obtain p c' where
      p: "p < k" "map_of (children (h ! p)) c' = Some k" "lab k = lab p @ [c']" by blast
    from k(2) have e: "c' = c" "suffix (lab p) P" unfolding p(3) by auto
    from p(1) k(1) have pl: "p < length h" by simp
    with node(2) e(2) have "suffix (lab p) (lab node)" by blast
    with n(4) pl p(2) e(1) have "suffix (lab p) (lab n)" by simp
    with p e pl show ?thesis by (intro exI[of _ p]) simp
  qed
  show ?thesis
  proof (cases "map_of (children (h ! n)) c")
    case None
    with n(3) have n0: "n = 0" by simp
    have "suffix (lab k) (lab 0)" if k: "k < length h" "suffix (lab k) (P @ [c])" for k
    proof (cases "k = 0")
      case False
      from up[OF k False] obtain p where p: "p < length h" "suffix (lab p) (lab n)"
        "map_of (children (h ! p)) c = Some k" by blast
      from p(2) n0 z have "lab p = []" by simp
      from trie_inv_lab_Nil[OF inv p(1) this] p(3) None n0 show ?thesis by simp
    qed simp
    with None z show ?thesis by (simp add: longest_in_def)
  next
    case (Some m)
    from trie_inv_child[OF inv n(1) Some] have m: "m < length h" "lab m = lab n @ [c]" by auto
    from suffix_order.trans[OF n(2) node(1)] have 1: "suffix (lab m) (P @ [c])"
      unfolding m(2) by simp
    have 2: "suffix (lab k) (lab m)" if k: "k < length h" "suffix (lab k) (P @ [c])" for k
    proof (cases "k = 0")
      case True
      with z show ?thesis by simp
    next
      case False
      from up[OF k False] obtain p where p: "lab k = lab p @ [c]" "suffix (lab p) (lab n)" by blast
      then show ?thesis unfolding m(2) by simp
    qed
    from Some m(1) 1 2 show ?thesis by (simp add: longest_in_def)
  qed
qed

lemma concat_strict_suffix_length:
  assumes "strict_suffix xs ys" "[] \<notin> set ys"
  shows "length (concat xs) < length (concat ys)"
proof -
  from assms(1) obtain zs where zs: "ys = zs @ xs" "zs \<noteq> []"
    by (auto simp: strict_suffix_def suffix_def)
  then obtain z zs' where "zs = z # zs'" by (cases zs) auto
  with zs assms(2) have "z \<noteq> []" by auto
  with zs \<open>zs = z # zs'\<close> show ?thesis by simp
qed

lemma collect_ok:
  assumes b: "built h lab"
  shows "t < length h \<Longrightarrow> sorted_wrt match_before found \<Longrightarrow>
     \<forall>m\<in>set found. match_wf T m \<and> (end_pos m < idx \<or>
        (end_pos m = idx \<and> start m < idx - int (length (concat (lab t))) + 1)) \<Longrightarrow>
     \<exists>found'. collect h T idx (Some t) found = Some (Inr found') \<and>
        collect_post h lab T idx t found found'"
proof (induction "length (lab t)" arbitrary: t found rule: less_induct)
  case less
  from b have inv: "trie_inv h lab" and lens: "lens_ok h lab" by (simp_all add: built_def)
  show ?case
  proof (cases "t = root")
    case True
    have e: "collect h T idx (Some t) found = Some (Inr found)"
      by (subst collect.simps) (use True in simp)
    have "\<not> terminal_at h lab (lab t) k" for k
    proof
      assume k: "terminal_at h lab (lab t) k"
      with True trie_inv_root[OF inv] have "k < length h" "lab k = []" "k \<noteq> 0"
        by (simp_all add: terminal_at_def)
      with trie_inv_lab_Nil[OF inv] show False by blast
    qed
    then have "{hit h T k idx |k. terminal_at h lab (lab t) k} = {}" by simp
    moreover from less.prems(3) have "\<forall>m\<in>set found. match_wf T m \<and> end_pos m \<le> idx"
      by auto
    ultimately have "collect_post h lab T idx t found found"
      unfolding collect_post_def using less.prems(2) by simp
    with e show ?thesis by blast
  next
    case False
    from built_fail[OF b less.prems(1) False] obtain t' where
      t': "t' < length h" "fail (h ! t) = Some t'" "strict_suffix (lab t') (lab t)"
      "\<forall>k<length h. strict_suffix (lab k) (lab t) \<longrightarrow> suffix (lab k) (lab t')" by blast
    let ?found1 = "if end_flag (h ! t) then found @ [hit h T t idx] else found"
    have u: "collect h T idx (Some t) found = collect h T idx (Some t') ?found1"
      using False t'(2) by (subst collect.simps) (simp add: hit_def)
    from trie_inv_walk_lab[OF inv less.prems(1)] have ne: "[] \<notin> set (lab t)" by simp
    from concat_strict_suffix_length[OF t'(3) ne]
    have cl: "length (concat (lab t')) < length (concat (lab t))" .
    have lf: "length_field (h ! t) = length (concat (lab t))" if "end_flag (h ! t)"
      using lens less.prems(1) that by (simp add: lens_ok_def)
    have s1: "sorted_wrt match_before ?found1"
      using less.prems(2,3) lf by (auto simp: sorted_wrt_append match_before_def hit_def)
    have i1: "\<forall>m\<in>set ?found1. match_wf T m \<and> (end_pos m < idx \<or>
        (end_pos m = idx \<and> start m < idx - int (length (concat (lab t'))) + 1))"
      using less.prems(3) lf cl by (auto simp: match_wf_def hit_def)
    from less.hyps[OF suffix_length_less[OF t'(3)] t'(1) s1 i1] obtain found' where
      f': "collect h T idx (Some t') ?found1 = Some (Inr found')"
      "collect_post h lab T idx t' ?found1 found'" by blast
    from f'(2) have p: "sorted_wrt match_before found'"
      "\<forall>m\<in>set found'. match_wf T m \<and> end_pos m \<le> idx"
      "set found' = set ?found1 \<union> {hit h T k idx |k. terminal_at h lab (lab t') k}"
      by (simp_all add: collect_post_def)
    have split: "terminal_at h lab (lab t) k \<longleftrightarrow>
                 (k = t \<and> end_flag (h ! t)) \<or> terminal_at h lab (lab t') k" for k
    proof
      assume k: "terminal_at h lab (lab t) k"
      show "(k = t \<and> end_flag (h ! t)) \<or> terminal_at h lab (lab t') k"
      proof (cases "lab k = lab t")
        case True
        from k have "k < length h" "end_flag (h ! k)" by (simp_all add: terminal_at_def)
        with trie_inv_inj[OF inv _ less.prems(1) True] show ?thesis by simp
      next
        case False
        with k have "strict_suffix (lab k) (lab t)" by (simp add: terminal_at_def strict_suffix_def)
        with t'(4) k have "suffix (lab k) (lab t')" by (simp add: terminal_at_def)
        with k show ?thesis by (simp add: terminal_at_def)
      qed
    next
      assume r: "(k = t \<and> end_flag (h ! t)) \<or> terminal_at h lab (lab t') k"
      from t'(3) have st: "suffix (lab t') (lab t)" by (simp add: strict_suffix_def)
      from r show "terminal_at h lab (lab t) k"
      proof
        assume "k = t \<and> end_flag (h ! t)"
        with less.prems(1) False show ?thesis by (simp add: terminal_at_def)
      next
        assume k: "terminal_at h lab (lab t') k"
        then have "suffix (lab k) (lab t')" by (simp add: terminal_at_def)
        from suffix_order.trans[OF this st] k show ?thesis by (simp add: terminal_at_def)
      qed
    qed
    have "{hit h T k idx |k. terminal_at h lab (lab t) k} =
          (if end_flag (h ! t) then {hit h T t idx} else {}) \<union>
          {hit h T k idx |k. terminal_at h lab (lab t') k}"
      unfolding split by auto
    then have "set found' = set found \<union> {hit h T k idx |k. terminal_at h lab (lab t) k}"
      unfolding p(3) by auto
    with p(1,2) have "collect_post h lab T idx t found found'"
      by (simp add: collect_post_def)
    with f'(1) u show ?thesis by simp
  qed
qed

lemma scan_range_split:
  fixes F :: "addr \<Rightarrow> nat \<Rightarrow> 'a" and Q :: "nat \<Rightarrow> addr \<Rightarrow> bool"
  shows "{F k e |k e. n \<le> e \<and> e < n + Suc l \<and> Q e k} =
         {F k n |k. Q n k} \<union> {F k e |k e. Suc n \<le> e \<and> e < Suc n + l \<and> Q e k}"
proof (intro equalityI subsetI)
  fix x assume "x \<in> {F k e |k e. n \<le> e \<and> e < n + Suc l \<and> Q e k}"
  then obtain k e where x: "x = F k e" "n \<le> e" "e < n + Suc l" "Q e k" by blast
  show "x \<in> {F k n |k. Q n k} \<union> {F k e |k e. Suc n \<le> e \<and> e < Suc n + l \<and> Q e k}"
  proof (cases "e = n")
    case True
    with x show ?thesis by blast
  next
    case False
    with x have "Suc n \<le> e" "e < Suc n + l" by simp_all
    with x show ?thesis by blast
  qed
next
  fix x assume "x \<in> {F k n |k. Q n k} \<union> {F k e |k e. Suc n \<le> e \<and> e < Suc n + l \<and> Q e k}"
  then consider k where "x = F k n" "Q n k"
    | k e where "x = F k e" "Suc n \<le> e" "e < Suc n + l" "Q e k" by blast
  then show "x \<in> {F k e |k e. n \<le> e \<and> e < n + Suc l \<and> Q e k}"
  proof cases
    case 1
    have "n \<le> n \<and> n < n + Suc l \<and> Q n k" using 1 by simp
    with 1(1) show ?thesis by blast
  next
    case 2
    then have "n \<le> e \<and> e < n + Suc l \<and> Q e k" by simp
    with 2(1) show ?thesis by blast
  qed
qed

lemma scan_loop_ok:
  assumes b: "built h lab"
  shows "longest_in h lab node P \<Longrightarrow> idx = int (length P) \<Longrightarrow>
     sorted_wrt match_before found \<Longrightarrow>
     \<forall>m\<in>set found. match_wf T m \<and> end_pos m < idx \<Longrightarrow>
     \<exists>found'. scan_loop h T cs node idx found = Some (Inr found') \<and>
        scan_post h lab T P cs found found'"
proof (induction cs arbitrary: node P idx found)
  case Nil
  then have "scan_post h lab T P [] found found" by (auto simp: scan_post_def)
  then show ?case by simp
next
  case (Cons c cs)
  from b have inv: "trie_inv h lab" by (simp add: built_def)
  from Cons.prems(1) have node: "node < length h" by (simp add: longest_in_def)
  from fall_back_ok[OF b node, of c] obtain n where
    fb: "fall_back h (Some node) c = Some (Inr n)" "fall_back_post h lab node c n" by blast
  from fb(2) have n: "n < length h"
    "suffix (lab n) (lab node)"
    "map_of (children (h ! n)) c = None \<longrightarrow> n = 0"
    "\<forall>k<length h. suffix (lab k) (lab node) \<and> map_of (children (h ! k)) c \<noteq> None \<longrightarrow>
             suffix (lab k) (lab n)"
    by (simp_all add: fall_back_post_def)
  let ?node' = "case map_of (children (h ! n)) c of Some m \<Rightarrow> m | None \<Rightarrow> root"
  from longest_in_step[OF b Cons.prems(1) n]
  have li: "longest_in h lab ?node' (P @ [c])" .
  then have nl: "?node' < length h" by (simp add: longest_in_def)
  from Cons.prems(4) have "\<forall>m\<in>set found. match_wf T m \<and> (end_pos m < idx \<or>
        (end_pos m = idx \<and> start m < idx - int (length (concat (lab ?node'))) + 1))" by simp
  from collect_ok[OF b nl Cons.prems(3) this] obtain found1 where
    f1: "collect h T idx (Some ?node') found = Some (Inr found1)"
    "collect_post h lab T idx ?node' found found1" by blast
  from f1(2) have c1: "sorted_wrt match_before found1"
    "\<forall>m\<in>set found1. match_wf T m \<and> end_pos m \<le> idx"
    "set found1 = set found \<union> {hit h T k idx |k. terminal_at h lab (lab ?node') k}"
    by (simp_all add: collect_post_def)
  from c1(2) have w1: "\<forall>m\<in>set found1. match_wf T m \<and> end_pos m < idx + 1" by auto
  have i1: "idx + 1 = int (length (P @ [c]))" using Cons.prems(2) by simp
  from Cons.IH[OF li i1 c1(1) w1] obtain found' where
    f': "scan_loop h T cs ?node' (idx + 1) found1 = Some (Inr found')"
    "scan_post h lab T (P @ [c]) cs found1 found'" by blast
  from f'(2) have p: "sorted_wrt match_before found'" "\<forall>m\<in>set found'. match_wf T m"
    "set found' = set found1 \<union>
          {hit h T k (int e) |k e. length (P @ [c]) \<le> e \<and> e < length (P @ [c]) + length cs \<and>
             terminal_at h lab (take (Suc e) ((P @ [c]) @ cs)) k}"
    by (simp_all add: scan_post_def)
  have tk: "take (Suc (length P)) (P @ c # cs) = P @ [c]" by simp
  have here: "terminal_at h lab (lab ?node') k \<longleftrightarrow> terminal_at h lab (take (Suc (length P)) (P @ c # cs)) k"
    for k
  proof (cases "k < length h")
    case True
    from li have l1: "suffix (lab ?node') (P @ [c])"
      and l2: "\<forall>k<length h. suffix (lab k) (P @ [c]) \<longrightarrow> suffix (lab k) (lab ?node')"
      unfolding longest_in_def by blast+
    have "suffix (lab k) (lab ?node') \<longleftrightarrow> suffix (lab k) (P @ [c])"
      using l1 l2 True suffix_order.trans by blast
    then show ?thesis unfolding tk terminal_at_def by blast
  next
    case False
    then show ?thesis by (simp add: terminal_at_def)
  qed
  have A: "{hit h T k idx |k. terminal_at h lab (lab ?node') k} =
           {hit h T k (int (length P)) |k. terminal_at h lab (take (Suc (length P)) (P @ c # cs)) k}"
    unfolding here Cons.prems(2) ..
  have B: "{hit h T k (int e) |k e. length (P @ [c]) \<le> e \<and> e < length (P @ [c]) + length cs \<and>
             terminal_at h lab (take (Suc e) ((P @ [c]) @ cs)) k} =
           {hit h T k (int e) |k e. Suc (length P) \<le> e \<and> e < Suc (length P) + length cs \<and>
             terminal_at h lab (take (Suc e) (P @ c # cs)) k}"
    by simp
  have R: "{hit h T k (int e) |k e. length P \<le> e \<and> e < length P + length (c # cs) \<and>
             terminal_at h lab (take (Suc e) (P @ c # cs)) k} =
          {hit h T k (int (length P)) |k. terminal_at h lab (take (Suc (length P)) (P @ c # cs)) k} \<union>
          {hit h T k (int e) |k e. Suc (length P) \<le> e \<and> e < Suc (length P) + length cs \<and>
             terminal_at h lab (take (Suc e) (P @ c # cs)) k}"
    using scan_range_split[of "\<lambda>k e. hit h T k (int e)" "length P" "length cs"
             "\<lambda>e k. terminal_at h lab (take (Suc e) (P @ c # cs)) k"]
    by simp
  have "set found' = set found \<union>
          {hit h T k (int e) |k e. length P \<le> e \<and> e < length P + length (c # cs) \<and>
             terminal_at h lab (take (Suc e) (P @ c # cs)) k}"
    unfolding R p(3) c1(3) A B by (simp only: Un_assoc)
  with p(1,2) have "scan_post h lab T P (c # cs) found found'"
    by (simp add: scan_post_def)
  moreover have "scan_loop h T (c # cs) node idx found = Some (Inr found')"
    using fb(1) f1(1) f'(1) by simp
  ultimately show ?case by blast
qed

lemma findSensitiveWords_ok:
  assumes "built h lab"
  shows "\<exists>ms. findSensitiveWords h T = Some (Inr ms) \<and> sorted_wrt match_before ms \<and>
              (\<forall>m\<in>set ms. match_wf T m) \<and>
              set ms = {hit h T k (int e) |k e. e < length (code_points T) \<and>
                          terminal_at h lab (take (Suc e) (code_points T)) k}"
proof -
  from assms have inv: "trie_inv h lab" by (simp add: built_def)
  have "sorted_wrt match_before []" "\<forall>m\<in>set []. match_wf T m \<and> end_pos m < 0" by simp_all
  from scan_loop_ok[OF assms longest_in_root[OF inv] _ this, of "code_points T"]
  obtain ms where ms: "scan_loop h T (code_points T) root 0 [] = Some (Inr ms)"
    "scan_post h lab T [] (code_points T) [] ms" by auto
  from ms(2) have "sorted_wrt match_before ms" "\<forall>m\<in>set ms. match_wf T m"
    "set ms = {hit h T k (int e) |k e. e < length (code_points T) \<and>
                          terminal_at h lab (take (Suc e) (code_points T)) k}"
    by (simp_all add: scan_post_def)
  with ms(1) show ?thesis unfolding findSensitiveWords_def by blast
qed

section \<open>Scanning before failure-link construction\<close>

lemma fuzzy_inner_same_shape:
  "same_shape h h' \<Longrightarrow>
   fuzzy_inner h T maxSkip currentNode potentialEnd skipped j =
   fuzzy_inner h' T maxSkip currentNode potentialEnd skipped j"
proof (induction h T maxSkip currentNode potentialEnd skipped j rule: fuzzy_inner.induct)
  case (1 h T maxSkip currentNode potentialEnd skipped j)
  note ss = "1.prems"
  from ss have c: "\<And>n. children (h' ! n) = children (h ! n)"
    and e: "\<And>n. end_flag (h' ! n) = end_flag (h ! n)" by (simp_all add: same_shape_def)
  show ?case
  proof (cases "j < length T")
    case False
    then show ?thesis
      by (simp add: fuzzy_inner.simps[of h] fuzzy_inner.simps[of h'])
  next
    case lt: True
    show ?thesis
    proof (cases "map_of (children (h ! currentNode)) [T ! j]")
      case None
      show ?thesis
      proof (cases "currentNode \<noteq> root \<and> skipped < maxSkip")
        case True
        from "1.IH"(1)[OF lt None True ss] show ?thesis
          using lt None True
          by (subst fuzzy_inner.simps[of h], subst fuzzy_inner.simps[of h']) (simp add: c)
      next
        case False
        then show ?thesis
          using lt None
          by (subst fuzzy_inner.simps[of h], subst fuzzy_inner.simps[of h']) (auto simp: c)
      qed
    next
      case (Some nxt)
      show ?thesis
      proof (cases "end_flag (h ! nxt)")
        case True
        then show ?thesis
          using lt Some
          by (subst fuzzy_inner.simps[of h], subst fuzzy_inner.simps[of h']) (simp add: c e)
      next
        case False
        from "1.IH"(2)[OF lt Some False ss] show ?thesis
          using lt Some False
          by (subst fuzzy_inner.simps[of h], subst fuzzy_inner.simps[of h']) (simp add: c e)
      qed
    qed
  qed
qed

lemma fuzzy_outer_same_shape:
  "same_shape h h' \<Longrightarrow>
   fuzzy_outer h T maxSkip i act found = fuzzy_outer h' T maxSkip i act found"
proof (induction h T maxSkip i act found rule: fuzzy_outer.induct)
  case (1 h T maxSkip i act found)
  note ss = "1.prems"
  note fi = fuzzy_inner_same_shape[OF ss, symmetric]
  show ?case
  proof (cases "i < length T")
    case False
    then show ?thesis
      by (simp add: fuzzy_outer.simps[of h] fuzzy_outer.simps[of h'])
  next
    case lt: True
    show ?thesis
    proof (cases "act ! i = 1")
      case True
      from "1.IH"(1)[OF lt True ss] show ?thesis
        using lt True
        by (subst fuzzy_outer.simps[of h], subst fuzzy_outer.simps[of h']) simp
    next
      case na: False
      show ?thesis
      proof (cases "fuzzy_inner h T maxSkip root i 0 i")
        case None
        from "1.IH"(2)[OF lt na None ss] show ?thesis
          using lt na None
          by (subst fuzzy_outer.simps[of h], subst fuzzy_outer.simps[of h']) (simp add: fi)
      next
        case (Some e)
        from "1.IH"(3)[OF lt na Some ss] show ?thesis
          using lt na Some
          by (subst fuzzy_outer.simps[of h], subst fuzzy_outer.simps[of h']) (simp add: fi)
      qed
    qed
  qed
qed

lemma scan_loop_unbuilt:
  assumes inv: "trie_inv h lab" and u: "unbuilt h"
  shows "scan_loop h T cs root idx [] =
     Some (if \<exists>c\<in>set cs. map_of (children (h ! root)) c \<noteq> None then Inl TypeError else Inr [])"
proof (induction cs arbitrary: idx)
  case Nil
  then show ?case by simp
next
  case (Cons c cs)
  have fb: "fall_back h (Some root) c = Some (Inr root)" by (subst fall_back.simps) simp
  from trie_inv_root[OF inv] have z: "0 < length h" by simp
  show ?case
  proof (cases "map_of (children (h ! root)) c")
    case None
    have "collect h T idx (Some root) [] = Some (Inr [])" by (subst collect.simps) simp
    with None fb Cons.IH show ?thesis by simp
  next
    case (Some m)
    from trie_inv_child[OF inv z Some] have m: "0 < m" "m < length h" by auto
    with u have f: "fail (h ! m) = None" by (simp add: unbuilt_def)
    have "collect h T idx (Some m) [] = Some (Inl TypeError)"
      using m(1) f by (subst collect.simps) (simp add: collect.simps[of h T idx None])
    with Some fb show ?thesis by simp
  qed
qed

section \<open>The exact scanner on texts without surrogate pairs\<close>

text \<open>On such a text the code point index and the code unit offset agree, and the
  exact scanner reports exactly the occurrences of the dictionary words: every match is an
  occurrence of a dictionary word at its span, and every occurrence of a non-empty
  dictionary word is a match.\<close>

lemma code_points_units: "no_surrogate_pair s \<Longrightarrow> code_points s = map (\<lambda>u. [u]) s"
  by (induction s rule: no_surrogate_pair.induct) auto

lemma no_surrogate_pair_tl: "no_surrogate_pair (u # s) \<Longrightarrow> no_surrogate_pair s"
  by (cases s) auto

lemma no_surrogate_pair_append:
  "no_surrogate_pair (xs @ ys) \<Longrightarrow> no_surrogate_pair xs \<and> no_surrogate_pair ys"
proof (induction xs)
  case Nil
  then show ?case by simp
next
  case (Cons u xs)
  show ?case
  proof (cases xs)
    case Nil
    with Cons.prems show ?thesis using no_surrogate_pair_tl[of u ys] by simp
  next
    case (Cons v rest)
    with Cons.prems Cons.IH show ?thesis by simp
  qed
qed

lemma concat_units: "concat (map (\<lambda>u. [u]) ws) = ws"
  by (induction ws) auto

lemma substring_nat:
  assumes "a \<le> b" "b \<le> length T"
  shows "substring T (int a) (int b) = take (b - a) (drop a T)"
proof -
  have "nat (int b - int a) = b - a" by simp
  with assms show ?thesis by (simp add: substring_def Let_def min_def max_def)
qed

lemma substring_suffix:
  assumes "e < length T" "suffix ws (take (Suc e) T)"
  shows "substring T (int e - int (length ws) + 1) (int e + 1) = ws"
proof -
  from assms(2) obtain zs where zs: "take (Suc e) T = zs @ ws" by (auto simp: suffix_def)
  have "length (take (Suc e) T) = Suc e" using assms(1) by simp
  then have l: "length zs + length ws = Suc e" unfolding zs by simp
  then have a: "int e - int (length ws) + 1 = int (length zs)" "int e + 1 = int (Suc e)" by simp_all
  have "drop (length zs) (take (Suc e) T) = ws" unfolding zs by simp
  then have w: "take (Suc e - length zs) (drop (length zs) T) = ws"
    by (simp add: drop_take)
  have "substring T (int (length zs)) (int (Suc e)) = take (Suc e - length zs) (drop (length zs) T)"
    by (rule substring_nat) (use l assms(1) in simp_all)
  with w show ?thesis unfolding a by simp
qed

lemma exact_result_set:
  assumes "loadSensitiveWords D = Some h" "findSensitiveWords h T = Some (Inr ms)"
  shows "\<exists>lab. built h lab \<and> words_ok h lab (set D) \<and>
           set ms = {hit h T k (int e) |k e. e < length (code_points T) \<and>
                       terminal_at h lab (take (Suc e) (code_points T)) k}"
proof -
  from loadSensitiveWords_ok[of D] assms(1) obtain lab where
    l: "built h lab" "words_ok h lab (set D)" by auto
  from findSensitiveWords_ok[OF l(1), of T] assms(2)
  have "set ms = {hit h T k (int e) |k e. e < length (code_points T) \<and>
                       terminal_at h lab (take (Suc e) (code_points T)) k}" by auto
  with l show ?thesis by blast
qed

lemma terminal_units:
  assumes b: "built h lab" and w: "words_ok h lab S"
    and t: "terminal_at h lab (map (\<lambda>u. [u]) X) k"
  shows "\<exists>ws. ws \<in> S \<and> ws \<noteq> [] \<and> suffix ws X \<and> lab k = map (\<lambda>u. [u]) ws \<and>
              length_field (h ! k) = length ws"
proof -
  from b have inv: "trie_inv h lab" and lens: "lens_ok h lab" by (simp_all add: built_def)
  from t have k: "k < length h" "k \<noteq> 0" "end_flag (h ! k)" "suffix (lab k) (map (\<lambda>u. [u]) X)"
    by (simp_all add: terminal_at_def)
  from suffix_map_rightE[OF k(4)] obtain ws where
    ws: "suffix ws X" "lab k = map (\<lambda>u. [u]) ws" by blast
  from w k(1,3) obtain w' where w': "w' \<in> S" "lab k = code_points w'"
    unfolding words_ok_def by blast
  have "w' = concat (lab k)" unfolding w'(2) by (simp add: concat_code_points)
  then have e: "w' = ws" unfolding ws(2) by (simp add: concat_units)
  from trie_inv_lab_Nil[OF inv k(1)] k(2) ws(2) have ne: "ws \<noteq> []" by auto
  from lens k(1,3) have "length_field (h ! k) = length (concat (lab k))"
    by (simp add: lens_ok_def)
  then have "length_field (h ! k) = length ws" unfolding ws(2) by (simp add: concat_units)
  with w'(1) e ne ws show ?thesis by blast
qed

theorem exact_sound_without_pairs:
  assumes "no_surrogate_pair T" "loadSensitiveWords D = Some h"
    and "findSensitiveWords h T = Some (Inr ms)" "m \<in> set ms"
  shows "word m \<in> set D \<and> 0 \<le> start m \<and> start m \<le> end_pos m \<and> end_pos m < int (length T) \<and>
         word m = take (nat (end_pos m - start m + 1)) (drop (nat (start m)) T)"
proof -
  let ?f = "\<lambda>u::16 word. [u]"
  from exact_result_set[OF assms(2,3)] obtain lab where
    l: "built h lab" "words_ok h lab (set D)"
    "set ms = {hit h T k (int e) |k e. e < length (code_points T) \<and>
                       terminal_at h lab (take (Suc e) (code_points T)) k}" by blast
  have cp: "code_points T = map ?f T" by (rule code_points_units[OF assms(1)])
  from assms(4) l(3) obtain k e where
    ke: "m = hit h T k (int e)" "e < length T" "terminal_at h lab (map ?f (take (Suc e) T)) k"
    unfolding cp by (auto simp: take_map)
  from terminal_units[OF l(1,2) ke(3)] obtain ws where
    ws: "ws \<in> set D" "ws \<noteq> []" "suffix ws (take (Suc e) T)" "length_field (h ! k) = length ws"
    by blast
  from ws(3) have "length ws \<le> length (take (Suc e) T)" by (rule suffix_length_le)
  with ke(2) have le: "length ws \<le> Suc e" by simp
  from ws(2) have pos: "Suc 0 \<le> length ws" by (cases ws) simp_all
  have f: "start m = int e - int (length ws) + 1" "end_pos m = int e"
    "word m = substring T (int e - int (length ws) + 1) (int e + 1)"
    unfolding ke(1) hit_def ws(4) by simp_all
  from substring_suffix[OF ke(2) ws(3)] f(3) have wd: "word m = ws" by simp
  have n: "nat (end_pos m - start m + 1) = length ws" "nat (start m) = Suc e - length ws"
    unfolding f using le by simp_all
  obtain zs where zs: "take (Suc e) T = zs @ ws" using ws(3) by (auto simp: suffix_def)
  have "length (take (Suc e) T) = Suc e" using ke(2) by simp
  then have lz: "length zs = Suc e - length ws" unfolding zs by simp
  have "drop (length zs) (take (Suc e) T) = ws" unfolding zs by simp
  then have "take (Suc e - length zs) (drop (length zs) T) = ws" by (simp add: drop_take)
  then have tk: "take (length ws) (drop (Suc e - length ws) T) = ws"
    unfolding lz using le by simp
  from wd ws(1) f(1,2) le pos ke(2) tk show ?thesis unfolding n by simp
qed

theorem exact_complete_without_pairs:
  assumes "no_surrogate_pair T" "w \<in> set D" "w \<noteq> []"
    and "s + length w \<le> length T" "take (length w) (drop s T) = w"
  shows "\<exists>h ms. loadSensitiveWords D = Some h \<and> findSensitiveWords h T = Some (Inr ms) \<and>
           \<lparr>word = w, start = int s, end_pos = int s + int (length w) - 1\<rparr> \<in> set ms"
proof -
  let ?f = "\<lambda>u::16 word. [u]"
  from loadSensitiveWords_ok[of D] obtain h lab where
    h: "loadSensitiveWords D = Some h" "built h lab" "words_ok h lab (set D)" by blast
  from findSensitiveWords_ok[OF h(2), of T] obtain ms where
    ms: "findSensitiveWords h T = Some (Inr ms)"
    "set ms = {hit h T k (int e) |k e. e < length (code_points T) \<and>
                       terminal_at h lab (take (Suc e) (code_points T)) k}" by blast
  from h(2) have inv: "trie_inv h lab" and lens: "lens_ok h lab" by (simp_all add: built_def)
  have cp: "code_points T = map ?f T" by (rule code_points_units[OF assms(1)])
  have T: "T = take s T @ w @ drop (s + length w) T"
    using assms(5) by (metis append_take_drop_id drop_drop add.commute)
  with assms(1) have "no_surrogate_pair (take s T @ w @ drop (s + length w) T)" by simp
  then have "no_surrogate_pair w" by (blast dest: no_surrogate_pair_append)
  then have cw: "code_points w = map ?f w" by (rule code_points_units)
  from h(3) assms(2) obtain k where k: "k < length h" "lab k = code_points w" "end_flag (h ! k)"
    unfolding words_ok_def by blast
  from k(2) cw assms(3) have "lab k \<noteq> []" by simp
  with trie_inv_root[OF inv] have k0: "k \<noteq> 0" by (cases "k = 0") auto
  define e where "e = s + length w - 1"
  from assms(3,4) have e: "e < length T" "Suc e = s + length w"
    unfolding e_def by (cases w; simp)+
  have tk: "take (Suc e) T = take s T @ w"
  proof -
    have "take (s + length w) T = take s T @ take (length w) (drop s T)" by (rule take_add)
    then show ?thesis unfolding e(2) assms(5) .
  qed
  have "take (Suc e) (code_points T) = map ?f (take s T) @ map ?f w"
    unfolding cp take_map tk by simp
  then have "suffix (lab k) (take (Suc e) (code_points T))"
    unfolding k(2) cw by (simp add: suffix_def)
  with k(1,3) k0 have ta: "terminal_at h lab (take (Suc e) (code_points T)) k"
    by (simp add: terminal_at_def)
  from e(1) cp have el: "e < length (code_points T)" by simp
  from ta el have mem: "hit h T k (int e) \<in> set ms" unfolding ms(2) by blast
  from lens k(1,3) have lf: "length_field (h ! k) = length w"
    unfolding lens_ok_def k(2)[symmetric] using k(2) by (simp add: concat_code_points)
  have sw: "suffix w (take (Suc e) T)" unfolding tk by (simp add: suffix_def)
  from substring_suffix[OF e(1) sw]
  have "hit h T k (int e) = \<lparr>word = w, start = int s, end_pos = int s + int (length w) - 1\<rparr>"
    unfolding hit_def lf using e(2) by simp
  with mem h(1) ms(1) show ?thesis by auto
qed

section \<open>The properties of the specification\<close>

text \<open>Claim C1: every match of the exact scanner has a \<open>word\<close> that is a member of the dictionary
  and equals the text between \<open>start\<close> and \<open>end\<close>.  The scanner counts \<open>currentIndex\<close>
  in code points but cuts the word with \<^verbatim>\<open>substring\<close>, which counts code units.  With the
  dictionary \<open>["a"]\<close> and the text U+1F600 followed by \<open>a\<close> (code units D83D, DE00, 0061) the
  only match has the word DE00, a lone low surrogate, which is not in the dictionary.\<close>

theorem exact_word_outside_dictionary:
  "\<exists>h. loadSensitiveWords [[0x61]] = Some h \<and>
       findSensitiveWords h [0xD83D, 0xDE00, 0x61] =
         Some (Inr [\<lparr>word = [0xDE00], start = 1, end_pos = 1\<rparr>])"
  by (rule exI[of _ "[\<lparr>children = [([0x61], 1)], fail = None, end_flag = False, length_field = 0\<rparr>,
        \<lparr>children = [], fail = Some 0, end_flag = True, length_field = 1\<rparr>]"])
     code_simp

text \<open>Claim C2: every occurrence of a dictionary word in the text appears as a match.  The
  stored length of a word is \<^verbatim>\<open>word.length\<close>, in code units, and it is subtracted from a
  position counted in code points.  With the dictionary holding the one word U+1F600 and
  the text U+1F600, the occurrence at code point 0 (code units 0 to 1) is reported as the
  span from \<open>-1\<close> to \<open>0\<close> with the word D83D: no match carries the word or its span.\<close>

theorem exact_occurrence_missed:
  "\<exists>h. loadSensitiveWords [[0xD83D, 0xDE00]] = Some h \<and>
       findSensitiveWords h [0xD83D, 0xDE00] =
         Some (Inr [\<lparr>word = [0xD83D], start = - 1, end_pos = 0\<rparr>])"
  by (rule exI[of _ "[\<lparr>children = [([0xD83D, 0xDE00], 1)], fail = None, end_flag = False, length_field = 0\<rparr>,
        \<lparr>children = [], fail = Some 0, end_flag = True, length_field = 2\<rparr>]"])
     code_simp

text \<open>Claim C3: positions and the stored word length count code points, for both scanners.
  \<^verbatim>\<open>addWord\<close> stores 2 for the word U+1F600, which has one code point, and the fuzzy scanner
  reports the \<open>a\<close> of the text U+1F600 \<open>a\<close> at position 2, its code unit offset, where
  the text has only the code points 0 and 1.\<close>

theorem code_units_not_code_points:
  "length (code_points [0xD83D, 0xDE00]) = 1 \<and>
   length_field (insertWords [[0xD83D, 0xDE00]] ! 1) = 2 \<and>
   code_points [0xD83D, 0xDE00, 0x61] = [[0xD83D, 0xDE00], [0x61]] \<and>
   (\<exists>h. loadSensitiveWords [[0x61]] = Some h \<and>
        findSensitiveWordsFuzzy h [0xD83D, 0xDE00, 0x61] 5 =
          [\<lparr>word = [0x61], start = 2, end_pos = 2\<rparr>])"
proof -
  have "loadSensitiveWords [[0x61]] =
      Some [\<lparr>children = [([0x61], 1)], fail = None, end_flag = False, length_field = 0\<rparr>,
        \<lparr>children = [], fail = Some 0, end_flag = True, length_field = 1\<rparr>] \<and>
      findSensitiveWordsFuzzy [\<lparr>children = [([0x61], 1)], fail = None, end_flag = False, length_field = 0\<rparr>,
        \<lparr>children = [], fail = Some 0, end_flag = True, length_field = 1\<rparr>] [0xD83D, 0xDE00, 0x61] 5 =
          [\<lparr>word = [0x61], start = 2, end_pos = 2\<rparr>]"
    by code_simp
  then have "\<exists>h. loadSensitiveWords [[0x61]] = Some h \<and>
        findSensitiveWordsFuzzy h [0xD83D, 0xDE00, 0x61] 5 =
          [\<lparr>word = [0x61], start = 2, end_pos = 2\<rparr>]" by blast
  moreover have "length (code_points [0xD83D, 0xDE00]) = 1" by code_simp
  moreover have "length_field (insertWords [[0xD83D, 0xDE00]] ! 1) = 2" by code_simp
  moreover have "code_points [0xD83D, 0xDE00, 0x61] = [[0xD83D, 0xDE00], [0x61]]" by code_simp
  ultimately show ?thesis by blast
qed

text \<open>Claim C4: for every dictionary \<open>D\<close> and text \<open>T\<close> the construction and the exact scan
  return, and the matches are in the order they are found: the end position never
  decreases, and among matches that end at the same position each comes before every
  shorter one.  The length of the dictionary word a match stands for is
  \<open>end - start + 1\<close>, the stored \<^verbatim>\<open>length\<close> of its terminal node; it decreases strictly.
  The reported \<open>word\<close> does not get longer either.\<close>

theorem exact_match_order:
  "\<exists>h ms. loadSensitiveWords D = Some h \<and> findSensitiveWords h T = Some (Inr ms) \<and>
     (\<forall>i j. i < j \<longrightarrow> j < length ms \<longrightarrow>
        end_pos (ms ! i) \<le> end_pos (ms ! j) \<and>
        (end_pos (ms ! i) = end_pos (ms ! j) \<longrightarrow>
           end_pos (ms ! j) - start (ms ! j) < end_pos (ms ! i) - start (ms ! i) \<and>
           length (word (ms ! j)) \<le> length (word (ms ! i))))"
proof -
  from loadSensitiveWords_ok[of D] obtain h lab where
    h: "loadSensitiveWords D = Some h" "built h lab" by blast
  from findSensitiveWords_ok[OF h(2), of T] obtain ms where
    ms: "findSensitiveWords h T = Some (Inr ms)" "sorted_wrt match_before ms"
    "\<forall>m\<in>set ms. match_wf T m" by blast
  have "end_pos (ms ! i) \<le> end_pos (ms ! j) \<and>
        (end_pos (ms ! i) = end_pos (ms ! j) \<longrightarrow>
           end_pos (ms ! j) - start (ms ! j) < end_pos (ms ! i) - start (ms ! i) \<and>
           length (word (ms ! j)) \<le> length (word (ms ! i)))"
    if ij: "i < j" "j < length ms" for i j
  proof -
    from ms(2) ij have mb: "match_before (ms ! i) (ms ! j)" by (simp add: sorted_wrt_iff_nth_less)
    from ms(3) ij have wf: "match_wf T (ms ! i)" "match_wf T (ms ! j)" by auto
    have "length (word (ms ! j)) \<le> length (word (ms ! i))"
      if e: "end_pos (ms ! i) = end_pos (ms ! j)"
    proof -
      from mb e have "start (ms ! i) \<le> start (ms ! j)" by (simp add: match_before_def)
      from substring_length_mono[OF this, of "end_pos (ms ! j) + 1" T] wf e
      show ?thesis by (simp add: match_wf_def)
    qed
    with mb show ?thesis by (auto simp: match_before_def)
  qed
  with h(1) ms(1) show ?thesis by blast
qed

text \<open>With the dictionary \<open>["ab", "b"]\<close> and the text \<open>xab\<close> both words end at position 2,
  and \<open>ab\<close> is reported first.\<close>

theorem exact_match_order_witness:
  "\<exists>h ms. loadSensitiveWords [[0x61, 0x62], [0x62]] = Some h \<and>
     findSensitiveWords h [0x78, 0x61, 0x62] = Some (Inr ms) \<and>
     length ms = 2 \<and> end_pos (ms ! 0) = 2 \<and> end_pos (ms ! 1) = 2 \<and>
     end_pos (ms ! 1) - start (ms ! 1) < end_pos (ms ! 0) - start (ms ! 0) \<and>
     length (word (ms ! 1)) \<le> length (word (ms ! 0))"
proof -
  let ?h = "[\<lparr>children = [([0x61], 1), ([0x62], 3)], fail = None, end_flag = False, length_field = 0\<rparr>,
     \<lparr>children = [([0x62], 2)], fail = Some 0, end_flag = False, length_field = 0\<rparr>,
     \<lparr>children = [], fail = Some 3, end_flag = True, length_field = 2\<rparr>,
     \<lparr>children = [], fail = Some 0, end_flag = True, length_field = 1\<rparr>]"
  let ?ms = "[\<lparr>word = [0x61, 0x62], start = 1, end_pos = 2\<rparr>, \<lparr>word = [0x62], start = 2, end_pos = 2\<rparr>]"
  have l: "loadSensitiveWords [[0x61, 0x62], [0x62]] = Some ?h" by code_simp
  have f: "findSensitiveWords ?h [0x78, 0x61, 0x62] = Some (Inr ?ms)" by code_simp
  from exact_match_order[of "[[0x61, 0x62], [0x62]]" "[0x78, 0x61, 0x62]"]
  obtain h ms where
    r: "loadSensitiveWords [[0x61, 0x62], [0x62]] = Some h"
    "findSensitiveWords h [0x78, 0x61, 0x62] = Some (Inr ms)"
    "\<forall>i j. i < j \<longrightarrow> j < length ms \<longrightarrow>
        end_pos (ms ! i) \<le> end_pos (ms ! j) \<and>
        (end_pos (ms ! i) = end_pos (ms ! j) \<longrightarrow>
           end_pos (ms ! j) - start (ms ! j) < end_pos (ms ! i) - start (ms ! i) \<and>
           length (word (ms ! j)) \<le> length (word (ms ! i)))" by blast
  from r(1) l have hh: "h = ?h" by simp
  from r(2) f hh have mm: "ms = ?ms" by simp
  then have e: "length ms = 2" "end_pos (ms ! 0) = 2" "end_pos (ms ! 1) = 2" by simp_all
  from r(3) e have "end_pos (ms ! 1) - start (ms ! 1) < end_pos (ms ! 0) - start (ms ! 0) \<and>
     length (word (ms ! 1)) \<le> length (word (ms ! 0))"
    by (metis zero_less_one one_less_numeral_iff semiring_norm(76))
  with r(1,2) e show ?thesis by blast
qed

text \<open>Claim C5: no two spans returned by the fuzzy scanner intersect: any two matches at
  different places of the result have disjoint position ranges, and no range is empty.
  This holds for every \<open>maxSkip\<close>, in particular for every non-negative one.\<close>

theorem fuzzy_spans_disjoint:
  assumes "loadSensitiveWords D = Some h"
    and "ms = findSensitiveWordsFuzzy h T maxSkip"
    and "i < length ms" "j < length ms" "i \<noteq> j"
  shows "{start (ms ! i)..end_pos (ms ! i)} \<inter> {start (ms ! j)..end_pos (ms ! j)} = {} \<and>
         start (ms ! i) \<le> end_pos (ms ! i)"
proof -
  have sep: "spans_separate ms" unfolding assms(2) by (rule findSensitiveWordsFuzzy_separate)
  then have ord: "\<And>a b. a < b \<Longrightarrow> b < length ms \<Longrightarrow> end_pos (ms ! a) < start (ms ! b)"
    by (simp add: spans_separate_def sorted_wrt_iff_nth_less)
  from sep assms(3) have ne: "start (ms ! i) \<le> end_pos (ms ! i)"
    by (simp add: spans_separate_def)
  from assms(5) consider "i < j" | "j < i" by linarith
  then have "{start (ms ! i)..end_pos (ms ! i)} \<inter> {start (ms ! j)..end_pos (ms ! j)} = {}"
  proof cases
    case 1
    from ord[OF 1 assms(4)] show ?thesis by auto
  next
    case 2
    from ord[OF 2 assms(3)] show ?thesis by auto
  qed
  with ne show ?thesis by simp
qed

text \<open>With the dictionary \<open>["ab", "cd"]\<close>, the text \<open>abxcd\<close> and \<open>maxSkip = 1\<close> the scanner
  returns the spans 0 to 1 and 3 to 4.\<close>

theorem fuzzy_spans_disjoint_witness:
  "\<exists>h ms. loadSensitiveWords [[0x61, 0x62], [0x63, 0x64]] = Some h \<and>
     ms = findSensitiveWordsFuzzy h [0x61, 0x62, 0x78, 0x63, 0x64] 1 \<and>
     ms = [\<lparr>word = [0x61, 0x62], start = 0, end_pos = 1\<rparr>,
           \<lparr>word = [0x63, 0x64], start = 3, end_pos = 4\<rparr>] \<and>
     {start (ms ! 0)..end_pos (ms ! 0)} \<inter> {start (ms ! 1)..end_pos (ms ! 1)} = {} \<and>
     start (ms ! 0) \<le> end_pos (ms ! 0)"
proof -
  let ?h = "[\<lparr>children = [([0x61], 1), ([0x63], 3)], fail = None, end_flag = False, length_field = 0\<rparr>,
     \<lparr>children = [([0x62], 2)], fail = Some 0, end_flag = False, length_field = 0\<rparr>,
     \<lparr>children = [], fail = Some 0, end_flag = True, length_field = 2\<rparr>,
     \<lparr>children = [([0x64], 4)], fail = Some 0, end_flag = False, length_field = 0\<rparr>,
     \<lparr>children = [], fail = Some 0, end_flag = True, length_field = 2\<rparr>]"
  let ?ms = "[\<lparr>word = [0x61, 0x62], start = 0, end_pos = 1\<rparr>,
           \<lparr>word = [0x63, 0x64], start = 3, end_pos = 4\<rparr>]"
  have l: "loadSensitiveWords [[0x61, 0x62], [0x63, 0x64]] = Some ?h" by code_simp
  have f: "?ms = findSensitiveWordsFuzzy ?h [0x61, 0x62, 0x78, 0x63, 0x64] 1" by code_simp
  have "{start (?ms ! 0)..end_pos (?ms ! 0)} \<inter> {start (?ms ! 1)..end_pos (?ms ! 1)} = {} \<and>
     start (?ms ! 0) \<le> end_pos (?ms ! 0)"
    by (rule fuzzy_spans_disjoint[OF l f]) simp_all
  with l f show ?thesis by blast
qed

text \<open>Claim C6: for a non-negative \<open>maxSkip\<close>, within each match of the fuzzy scanner at most
  \<open>maxSkip\<close> text characters are skipped between two consecutive characters consumed by
  trie transitions.  The match from \<open>s\<close> to \<open>e\<close> is the result of the inner loop started
  at \<open>s\<close>; \<open>trail\<close> lists the positions of the consumed characters, in order, and
  \<open>gaps_within\<close> bounds the number of positions between two neighbours.\<close>

theorem fuzzy_skip_bound:
  assumes "loadSensitiveWords D = Some h" and "0 \<le> maxSkip"
    and "m \<in> set (findSensitiveWordsFuzzy h T maxSkip)"
  shows "\<exists>s e trail. start m = int s \<and> end_pos m = int e \<and>
           fuzzy_inner h T maxSkip root s 0 s = Some e \<and>
           fuzzy_inner_trail h T maxSkip root s 0 s [] = Some (e, trail) \<and>
           gaps_within maxSkip trail"
proof -
  from findSensitiveWordsFuzzy_origin[OF assms(3)] obtain s e where
    se: "fuzzy_inner h T maxSkip root s 0 s = Some e" "start m = int s" "end_pos m = int e"
    by auto
  from se(1) fuzzy_inner_trail_fst[of h T maxSkip root s 0 s "[]"] obtain trail where
    tr: "fuzzy_inner_trail h T maxSkip root s 0 s [] = Some (e, trail)" by auto
  from fuzzy_inner_trail_gaps[OF tr _ assms(2)] have "gaps_within maxSkip trail"
    using assms(2) by simp
  with se tr show ?thesis by blast
qed

text \<open>The dictionary \<open>["kill"]\<close>, the text \<open>k1i2l3l\<close> and \<open>maxSkip = 1\<close>: the consumed
  characters are at 0, 2, 4 and 6.\<close>

theorem fuzzy_skip_bound_witness:
  "\<exists>h. loadSensitiveWords [[0x6b, 0x69, 0x6c, 0x6c]] = Some h \<and> (0::int) \<le> 1 \<and>
     \<lparr>word = [0x6b, 0x31, 0x69, 0x32, 0x6c, 0x33, 0x6c], start = 0, end_pos = 6\<rparr>
       \<in> set (findSensitiveWordsFuzzy h [0x6b, 0x31, 0x69, 0x32, 0x6c, 0x33, 0x6c] 1) \<and>
     fuzzy_inner_trail h [0x6b, 0x31, 0x69, 0x32, 0x6c, 0x33, 0x6c] 1 root 0 0 0 [] =
       Some (6, [0, 2, 4, 6]) \<and>
     gaps_within 1 [0, 2, 4, 6]"
proof -
  let ?h = "[\<lparr>children = [([0x6b], 1)], fail = None, end_flag = False, length_field = 0\<rparr>,
     \<lparr>children = [([0x69], 2)], fail = Some 0, end_flag = False, length_field = 0\<rparr>,
     \<lparr>children = [([0x6c], 3)], fail = Some 0, end_flag = False, length_field = 0\<rparr>,
     \<lparr>children = [([0x6c], 4)], fail = Some 0, end_flag = False, length_field = 0\<rparr>,
     \<lparr>children = [], fail = Some 0, end_flag = True, length_field = 4\<rparr>]"
  let ?T = "[0x6b, 0x31, 0x69, 0x32, 0x6c, 0x33, 0x6c] :: jsstring"
  let ?m = "\<lparr>word = ?T, start = 0, end_pos = 6\<rparr>"
  have l: "loadSensitiveWords [[0x6b, 0x69, 0x6c, 0x6c]] = Some ?h" by code_simp
  have f: "findSensitiveWordsFuzzy ?h ?T 1 = [?m]" by code_simp
  then have mem: "?m \<in> set (findSensitiveWordsFuzzy ?h ?T 1)" by simp
  have t: "fuzzy_inner_trail ?h ?T 1 root 0 0 0 [] = Some (6, [0, 2, 4, 6])" by code_simp
  have z: "(0::int) \<le> 1" by simp
  from fuzzy_skip_bound[OF l z mem] obtain s e trail where
    r: "start ?m = int s" "end_pos ?m = int e"
    "fuzzy_inner_trail ?h ?T 1 root s 0 s [] = Some (e, trail)" "gaps_within 1 trail" by blast
  from r(1) have "s = 0" by simp
  with r(3) t have "trail = [0, 2, 4, 6]" by simp
  with r(4) l mem t z show ?thesis by (intro exI[of _ ?h]) simp
qed

text \<open>Claim C10: in each match of the fuzzy scanner the first and the last character of the span
  are consumed by trie transitions: the trail of consumed positions is not empty, starts at
  \<open>start\<close> and ends at \<open>end\<close>, so skipped characters lie strictly inside the span.\<close>

theorem fuzzy_span_ends_matched:
  assumes "loadSensitiveWords D = Some h"
    and "m \<in> set (findSensitiveWordsFuzzy h T maxSkip)"
  shows "\<exists>s e trail. start m = int s \<and> end_pos m = int e \<and>
           fuzzy_inner h T maxSkip root s 0 s = Some e \<and>
           fuzzy_inner_trail h T maxSkip root s 0 s [] = Some (e, trail) \<and>
           trail \<noteq> [] \<and> hd trail = s \<and> last trail = e"
proof -
  from findSensitiveWordsFuzzy_origin[OF assms(2)] obtain s e where
    se: "fuzzy_inner h T maxSkip root s 0 s = Some e" "start m = int s" "end_pos m = int e"
    by auto
  from se(1) fuzzy_inner_trail_fst[of h T maxSkip root s 0 s "[]"] obtain trail where
    tr: "fuzzy_inner_trail h T maxSkip root s 0 s [] = Some (e, trail)" by auto
  from fuzzy_inner_trail_ends[OF tr] fuzzy_inner_trail_first[OF tr] se tr show ?thesis by blast
qed

text \<open>The same run as above: the trail starts at 0 and ends at 6, the span of the match.\<close>

theorem fuzzy_span_ends_matched_witness:
  "\<exists>h. loadSensitiveWords [[0x6b, 0x69, 0x6c, 0x6c]] = Some h \<and>
     \<lparr>word = [0x6b, 0x31, 0x69, 0x32, 0x6c, 0x33, 0x6c], start = 0, end_pos = 6\<rparr>
       \<in> set (findSensitiveWordsFuzzy h [0x6b, 0x31, 0x69, 0x32, 0x6c, 0x33, 0x6c] 1) \<and>
     (\<exists>trail. fuzzy_inner_trail h [0x6b, 0x31, 0x69, 0x32, 0x6c, 0x33, 0x6c] 1 root 0 0 0 [] =
         Some (6, trail) \<and> trail \<noteq> [] \<and> hd trail = 0 \<and> last trail = 6)"
proof -
  let ?h = "[\<lparr>children = [([0x6b], 1)], fail = None, end_flag = False, length_field = 0\<rparr>,
     \<lparr>children = [([0x69], 2)], fail = Some 0, end_flag = False, length_field = 0\<rparr>,
     \<lparr>children = [([0x6c], 3)], fail = Some 0, end_flag = False, length_field = 0\<rparr>,
     \<lparr>children = [([0x6c], 4)], fail = Some 0, end_flag = False, length_field = 0\<rparr>,
     \<lparr>children = [], fail = Some 0, end_flag = True, length_field = 4\<rparr>]"
  let ?T = "[0x6b, 0x31, 0x69, 0x32, 0x6c, 0x33, 0x6c] :: jsstring"
  let ?m = "\<lparr>word = ?T, start = 0, end_pos = 6\<rparr>"
  have l: "loadSensitiveWords [[0x6b, 0x69, 0x6c, 0x6c]] = Some ?h" by code_simp
  have f: "findSensitiveWordsFuzzy ?h ?T 1 = [?m]" by code_simp
  then have mem: "?m \<in> set (findSensitiveWordsFuzzy ?h ?T 1)" by simp
  from fuzzy_span_ends_matched[OF l mem] obtain s e trail where
    r: "start ?m = int s" "end_pos ?m = int e"
    "fuzzy_inner_trail ?h ?T 1 root s 0 s [] = Some (e, trail)"
    "trail \<noteq> []" "hd trail = s" "last trail = e" by blast
  from r(1,2) have "s = 0" "e = 6" by simp_all
  with r l mem show ?thesis by (intro exI[of _ ?h]) auto
qed

text \<open>Claim C7 says that a scan on an automaton whose failure links are not built signals a
  \<open>NotBuilt\<close> error.  The scanners have no such guard.  After \<^verbatim>\<open>addWord("a")\<close> alone, with
  every fail pointer still \<^verbatim>\<open>null\<close>, the fuzzy scanner returns its match for the text \<open>a\<close>
  and the exact scanner returns the empty list for the text \<open>b\<close>.\<close>

theorem unbuilt_scan_counterexample:
  "findSensitiveWordsFuzzy (insertWords [[0x61]]) [0x61] 5 =
     [\<lparr>word = [0x61], start = 0, end_pos = 0\<rparr>] \<and>
   findSensitiveWords (insertWords [[0x61]]) [0x62] = Some (Inr []) \<and>
   fail (insertWords [[0x61]] ! 1) = None"
  by code_simp

text \<open>Claim C7, amended: a scan after the insertions and before \<^verbatim>\<open>buildFailPointers\<close> is not
  guarded.  The exact scanner returns the empty list when no code point of the text is a
  key of the root's children, and otherwise throws a \<^verbatim>\<open>TypeError\<close> at the first read of a
  \<^verbatim>\<open>null\<close> fail pointer.  The fuzzy scanner never reads a fail pointer: it returns
  exactly what it returns on the built automaton.\<close>

theorem unbuilt_scan:
  "findSensitiveWords (insertWords D) T =
     Some (if \<exists>c\<in>set (code_points T). map_of (children (insertWords D ! root)) c \<noteq> None
           then Inl TypeError else Inr []) \<and>
   (\<forall>h. loadSensitiveWords D = Some h \<longrightarrow>
        findSensitiveWordsFuzzy (insertWords D) T maxSkip = findSensitiveWordsFuzzy h T maxSkip)"
proof -
  from insertWords_inv[of D] obtain lab where
    i: "trie_inv (insertWords D) lab" "unbuilt (insertWords D)" by blast
  have a: "findSensitiveWords (insertWords D) T =
     Some (if \<exists>c\<in>set (code_points T). map_of (children (insertWords D ! root)) c \<noteq> None
           then Inl TypeError else Inr [])"
    unfolding findSensitiveWords_def by (rule scan_loop_unbuilt[OF i])
  have b: "findSensitiveWordsFuzzy (insertWords D) T maxSkip = findSensitiveWordsFuzzy h T maxSkip"
    if "loadSensitiveWords D = Some h" for h
  proof -
    from loadSensitiveWords_ok[of D] that have "same_shape (insertWords D) h" by auto
    then show ?thesis
      unfolding findSensitiveWordsFuzzy_def by (rule fuzzy_outer_same_shape)
  qed
  from a b show ?thesis by blast
qed

text \<open>With the word \<open>a\<close> inserted and the text \<open>xa\<close>, the exact scanner throws and the fuzzy
  scanner finds the match at position 1, before and after construction.\<close>

theorem unbuilt_scan_witness:
  "findSensitiveWords (insertWords [[0x61]]) [0x78, 0x61] = Some (Inl TypeError) \<and>
   (\<exists>h. loadSensitiveWords [[0x61]] = Some h \<and>
      findSensitiveWordsFuzzy (insertWords [[0x61]]) [0x78, 0x61] 5 =
        findSensitiveWordsFuzzy h [0x78, 0x61] 5 \<and>
      findSensitiveWordsFuzzy h [0x78, 0x61] 5 = [\<lparr>word = [0x61], start = 1, end_pos = 1\<rparr>])"
proof -
  let ?h = "[\<lparr>children = [([0x61], 1)], fail = None, end_flag = False, length_field = 0\<rparr>,
        \<lparr>children = [], fail = Some 0, end_flag = True, length_field = 1\<rparr>]"
  have l: "loadSensitiveWords [[0x61]] = Some ?h" by code_simp
  have c: "\<exists>c\<in>set (code_points [0x78, 0x61]). map_of (children (insertWords [[0x61]] ! root)) c \<noteq> None"
    by code_simp
  have f: "findSensitiveWordsFuzzy ?h [0x78, 0x61] 5 = [\<lparr>word = [0x61], start = 1, end_pos = 1\<rparr>]"
    by code_simp
  from unbuilt_scan[of "[[0x61]]" "[0x78, 0x61]" 5] c l f show ?thesis by simp
qed

text \<open>Claim C8 says that a negative \<open>maxSkip\<close> is rejected before scanning and no match
  sequence is produced.  Nothing checks \<open>maxSkip\<close>: with \<open>maxSkip = -1\<close> the scanner
  returns the match of \<open>a\<close> in \<open>a\<close>.\<close>

theorem negative_maxSkip_counterexample:
  "\<exists>h. loadSensitiveWords [[0x61]] = Some h \<and>
       findSensitiveWordsFuzzy h [0x61] (- 1) = [\<lparr>word = [0x61], start = 0, end_pos = 0\<rparr>]"
  by (rule exI[of _ "[\<lparr>children = [([0x61], 1)], fail = None, end_flag = False, length_field = 0\<rparr>,
        \<lparr>children = [], fail = Some 0, end_flag = True, length_field = 1\<rparr>]"])
     code_simp

text \<open>Claim C8, amended: a negative \<open>maxSkip\<close> is not rejected; the test
  \<^verbatim>\<open>skipped < maxSkip\<close> then never holds, and the fuzzy scanner returns exactly the matches
  it returns for \<open>maxSkip = 0\<close>.\<close>

theorem negative_maxSkip_as_zero:
  assumes "loadSensitiveWords D = Some h" and "maxSkip < 0"
  shows "findSensitiveWordsFuzzy h T maxSkip = findSensitiveWordsFuzzy h T 0"
  unfolding findSensitiveWordsFuzzy_def using assms(2) by (rule fuzzy_outer_negative)

text \<open>The dictionary \<open>["kill"]\<close> and the text \<open>killk1ill\<close> with \<open>maxSkip = -3\<close>: one match,
  the contiguous one, as with \<open>maxSkip = 0\<close>.\<close>

theorem negative_maxSkip_as_zero_witness:
  "\<exists>h. loadSensitiveWords [[0x6b, 0x69, 0x6c, 0x6c]] = Some h \<and> (- 3 :: int) < 0 \<and>
     findSensitiveWordsFuzzy h [0x6b, 0x69, 0x6c, 0x6c, 0x6b, 0x31, 0x69, 0x6c, 0x6c] (- 3) =
     findSensitiveWordsFuzzy h [0x6b, 0x69, 0x6c, 0x6c, 0x6b, 0x31, 0x69, 0x6c, 0x6c] 0 \<and>
     findSensitiveWordsFuzzy h [0x6b, 0x69, 0x6c, 0x6c, 0x6b, 0x31, 0x69, 0x6c, 0x6c] 0 =
       [\<lparr>word = [0x6b, 0x69, 0x6c, 0x6c], start = 0, end_pos = 3\<rparr>]"
proof -
  let ?h = "[\<lparr>children = [([0x6b], 1)], fail = None, end_flag = False, length_field = 0\<rparr>,
     \<lparr>children = [([0x69], 2)], fail = Some 0, end_flag = False, length_field = 0\<rparr>,
     \<lparr>children = [([0x6c], 3)], fail = Some 0, end_flag = False, length_field = 0\<rparr>,
     \<lparr>children = [([0x6c], 4)], fail = Some 0, end_flag = False, length_field = 0\<rparr>,
     \<lparr>children = [], fail = Some 0, end_flag = True, length_field = 4\<rparr>]"
  let ?T = "[0x6b, 0x69, 0x6c, 0x6c, 0x6b, 0x31, 0x69, 0x6c, 0x6c] :: jsstring"
  have l: "loadSensitiveWords [[0x6b, 0x69, 0x6c, 0x6c]] = Some ?h" by code_simp
  have n: "(- 3 :: int) < 0" by simp
  have f: "findSensitiveWordsFuzzy ?h ?T 0 = [\<lparr>word = [0x6b, 0x69, 0x6c, 0x6c], start = 0, end_pos = 3\<rparr>]"
    by code_simp
  from negative_maxSkip_as_zero[OF l n, of ?T] l n f show ?thesis by blast
qed

text \<open>Claim C9: after failure-link construction every node other than the root has a fail
  target, and the target is strictly nearer to the root: both nodes are reached from the
  root, and every key sequence that leads to the target is shorter than every key sequence
  that leads to the node.\<close>

theorem fail_target_depth:
  assumes "loadSensitiveWords D = Some h" "n < length h" "n \<noteq> root"
  shows "\<exists>m<length h. fail (h ! n) = Some m \<and>
           (\<exists>p. walk h root p = Some n) \<and> (\<exists>q. walk h root q = Some m) \<and>
           (\<forall>p q. walk h root p = Some n \<longrightarrow> walk h root q = Some m \<longrightarrow> length q < length p)"
proof -
  from loadSensitiveWords_ok[of D] assms(1) obtain lab where b: "built h lab" by auto
  then have inv: "trie_inv h lab" by (simp add: built_def)
  from built_fail[OF b assms(2,3)] obtain m where
    m: "m < length h" "fail (h ! n) = Some m" "strict_suffix (lab m) (lab n)" by blast
  from m(3) have lt: "length (lab m) < length (lab n)" by (rule suffix_length_less)
  have "length q < length p" if "walk h root p = Some n" "walk h root q = Some m" for p q
    using trie_inv_walk_unique[OF inv that(1)] trie_inv_walk_unique[OF inv that(2)] lt by simp
  moreover have "\<exists>p. walk h root p = Some n" "\<exists>q. walk h root q = Some m"
    using trie_inv_walk_lab[OF inv assms(2)] trie_inv_walk_lab[OF inv m(1)] by blast+
  ultimately show ?thesis using m(1,2) by blast
qed

text \<open>In the automaton of \<open>["ab", "b"]\<close> the node of \<open>ab\<close> (address 2, depth 2) fails to the
  node of \<open>b\<close> (address 3, depth 1).\<close>

theorem fail_target_depth_witness:
  "\<exists>h. loadSensitiveWords [[0x61, 0x62], [0x62]] = Some h \<and> 2 < length h \<and> (2::nat) \<noteq> root \<and>
     fail (h ! 2) = Some 3 \<and>
     walk h root [[0x61], [0x62]] = Some 2 \<and> walk h root [[0x62]] = Some 3 \<and>
     (\<forall>p q. walk h root p = Some 2 \<longrightarrow> walk h root q = Some 3 \<longrightarrow> length q < length p)"
proof -
  let ?h = "[\<lparr>children = [([0x61], 1), ([0x62], 3)], fail = None, end_flag = False, length_field = 0\<rparr>,
     \<lparr>children = [([0x62], 2)], fail = Some 0, end_flag = False, length_field = 0\<rparr>,
     \<lparr>children = [], fail = Some 3, end_flag = True, length_field = 2\<rparr>,
     \<lparr>children = [], fail = Some 0, end_flag = True, length_field = 1\<rparr>]"
  have l: "loadSensitiveWords [[0x61, 0x62], [0x62]] = Some ?h" by code_simp
  have b: "2 < length ?h" "(2::nat) \<noteq> root" by simp_all
  have f: "fail (?h ! 2) = Some 3" by simp
  have w: "walk ?h root [[0x61], [0x62]] = Some 2" "walk ?h root [[0x62]] = Some 3" by code_simp+
  from fail_target_depth[OF l b] f
  have "\<forall>p q. walk ?h root p = Some 2 \<longrightarrow> walk ?h root q = Some 3 \<longrightarrow> length q < length p"
    by simp
  with l b f w show ?thesis by blast
qed

end
